theory Spec2Isabelle
  imports Main "HOL-Library.Word" "HOL-Library.Char_ord" "HOL-Library.List_Lexorder"
begin

section \<open>The poller-ready gate (handler.EnsurePoller)\<close>

text \<open>
  \<^verbatim>\<open>sync2.PollerID\<close> is the pair of a user id and a device id. The payloads are the
  structs of package pubsub that the gate reads or publishes.
\<close>

datatype PollerID = PollerID (UserID: string) (DeviceID: string)

datatype V3EnsurePolling =
  V3EnsurePolling (ep_UserID: string) (ep_DeviceID: string) (ep_AccessTokenHash: string)

datatype V2InitialSyncComplete = V2InitialSyncComplete (isc_UserID: string) (isc_DeviceID: string)

datatype V2ExpiredToken = V2ExpiredToken (et_UserID: string) (et_DeviceID: string)

text \<open>
  A Go channel is a reference: \<^verbatim>\<open>make(chan struct{})\<close> yields a channel distinct from every
  other one. Channels are numbered in allocation order; the nil channel is \<open>None\<close>.
\<close>

type_synonym chan = nat

text \<open>The struct \<^verbatim>\<open>pendingInfo\<close>, fields \<^verbatim>\<open>done\<close> and \<^verbatim>\<open>ch\<close>.\<close>

record pendingInfo =
  pi_done :: bool
  pi_ch :: "chan option"

text \<open>
  The struct \<^verbatim>\<open>EnsurePoller\<close>. Beside the map \<^verbatim>\<open>pendingPolls\<close> the state holds what
  the methods do to the world around the map: the channel allocator, the channels on which
  \<^verbatim>\<open>close\<close> has run (newest first), and the payloads handed to \<^verbatim>\<open>notifier.Notify\<close> on
  \<^verbatim>\<open>chanName\<close> (oldest first). Each method body between \<^verbatim>\<open>mu.Lock\<close> and \<^verbatim>\<open>mu.Unlock\<close> is
  one atomic step of the state. \<^verbatim>\<open>EnsurePolling\<close> calls \<^verbatim>\<open>Notify\<close> after it has unlocked; the
  call is taken into its step.
\<close>

record EnsurePoller =
  pendingPolls :: "PollerID \<rightharpoonup> pendingInfo"
  next_chan :: chan
  closed :: "chan list"
  notified :: "V3EnsurePolling list"

definition NewEnsurePoller :: EnsurePoller where
  "NewEnsurePoller = \<lparr>pendingPolls = Map.empty, next_chan = 0, closed = [], notified = []\<rparr>"

text \<open>Reading a Go map at a missing key gives the zero value of the element type.\<close>

definition zero_pendingInfo :: pendingInfo where
  "zero_pendingInfo = \<lparr>pi_done = False, pi_ch = None\<rparr>"

definition pending_at :: "EnsurePoller \<Rightarrow> PollerID \<Rightarrow> pendingInfo" where
  "pending_at p pid = (case pendingPolls p pid of None \<Rightarrow> zero_pendingInfo | Some i \<Rightarrow> i)"

text \<open>Go's \<^verbatim>\<open>close\<close> panics on the nil channel and on a channel that is already closed.\<close>

datatype panic = CloseOfNilChannel | CloseOfClosedChannel

definition close_chan :: "chan option \<Rightarrow> EnsurePoller \<Rightarrow> panic + EnsurePoller" where
  "close_chan ch p =
     (case ch of
        None \<Rightarrow> Inl CloseOfNilChannel
      | Some c \<Rightarrow> if c \<in> set (closed p) then Inl CloseOfClosedChannel
                  else Inr (p\<lparr>closed := c # closed p\<rparr>))"

text \<open>
  What the caller of \<^verbatim>\<open>EnsurePolling\<close> does after the critical section: it returns at
  once, or it receives from a channel, which blocks until that channel is closed.
\<close>

datatype waiting = ReturnsAtOnce | BlocksOn chan

definition EnsurePolling :: "PollerID \<Rightarrow> string \<Rightarrow> EnsurePoller \<Rightarrow> EnsurePoller \<times> waiting" where
  "EnsurePolling pid tokenHash p =
     (if pi_done (pending_at p pid) then (p, ReturnsAtOnce)
      else case pi_ch (pending_at p pid) of
        Some ch \<Rightarrow> (p, BlocksOn ch)
      | None \<Rightarrow>
          (let ch = next_chan p in
           (p\<lparr>pendingPolls := (pendingPolls p)(pid \<mapsto> \<lparr>pi_done = False, pi_ch = Some ch\<rparr>),
              next_chan := Suc ch,
              notified := notified p @ [V3EnsurePolling (UserID pid) (DeviceID pid) tokenHash]\<rparr>,
            BlocksOn ch)))"

definition OnInitialSyncComplete :: "V2InitialSyncComplete \<Rightarrow> EnsurePoller \<Rightarrow> panic + EnsurePoller" where
  "OnInitialSyncComplete payload p =
     (let pid = PollerID (isc_UserID payload) (isc_DeviceID payload) in
      case pendingPolls p pid of
        None \<Rightarrow> Inr (p\<lparr>pendingPolls := (pendingPolls p)(pid \<mapsto> \<lparr>pi_done = True, pi_ch = None\<rparr>)\<rparr>)
      | Some pending \<Rightarrow>
          if pi_done pending then Inr p
          else close_chan (pi_ch pending)
                 (p\<lparr>pendingPolls := (pendingPolls p)(pid \<mapsto> pending\<lparr>pi_done := True, pi_ch := None\<rparr>)\<rparr>))"

definition OnExpiredToken :: "V2ExpiredToken \<Rightarrow> EnsurePoller \<Rightarrow> panic + EnsurePoller" where
  "OnExpiredToken payload p =
     (let pid = PollerID (et_UserID payload) (et_DeviceID payload) in
      case pendingPolls p pid of
        None \<Rightarrow> Inr p
      | Some pending \<Rightarrow>
          (case (if pi_ch pending \<noteq> None then close_chan (pi_ch pending) p else Inr p) of
             Inl e \<Rightarrow> Inl e
           | Inr p' \<Rightarrow> Inr (p'\<lparr>pendingPolls := (pendingPolls p')(pid := None)\<rparr>)))"

text \<open>A call of one of the three methods, and a run of calls from a gate state.\<close>

datatype gate_call =
    CallEnsurePolling PollerID string
  | CallOnInitialSyncComplete V2InitialSyncComplete
  | CallOnExpiredToken V2ExpiredToken

fun gate_step :: "gate_call \<Rightarrow> EnsurePoller \<Rightarrow> panic + EnsurePoller" where
  "gate_step (CallEnsurePolling pid tokenHash) p = Inr (fst (EnsurePolling pid tokenHash p))"
| "gate_step (CallOnInitialSyncComplete payload) p = OnInitialSyncComplete payload p"
| "gate_step (CallOnExpiredToken payload) p = OnExpiredToken payload p"

fun gate_run :: "gate_call list \<Rightarrow> EnsurePoller \<Rightarrow> panic + EnsurePoller" where
  "gate_run [] p = Inr p"
| "gate_run (c # cs) p = (case gate_step c p of Inl e \<Rightarrow> Inl e | Inr p' \<Rightarrow> gate_run cs p')"

text \<open>The number of payloads for one poller among those published.\<close>

definition published_for :: "PollerID \<Rightarrow> EnsurePoller \<Rightarrow> nat" where
  "published_for pid p =
     length (filter (\<lambda>m. PollerID (ep_UserID m) (ep_DeviceID m) = pid) (notified p))"

text \<open>
  The invariant of the gate: a slot is either done with a nil channel, or pending with an
  allocated channel that is still open and belongs to no other slot.
\<close>

definition gate_inv :: "EnsurePoller \<Rightarrow> bool" where
  "gate_inv p \<longleftrightarrow>
     (\<forall>pid info. pendingPolls p pid = Some info \<longrightarrow>
        (if pi_done info then pi_ch info = None
         else \<exists>c. pi_ch info = Some c \<and> c < next_chan p \<and> c \<notin> set (closed p))) \<and>
     (\<forall>pid pid' info info' c. pendingPolls p pid = Some info \<and> pendingPolls p pid' = Some info' \<and>
        pi_ch info = Some c \<and> pi_ch info' = Some c \<longrightarrow> pid = pid') \<and>
     (\<forall>c \<in> set (closed p). c < next_chan p) \<and>
     distinct (closed p)"

text \<open>
  What one poller may still cause to be published: what was published for it so far, and
  one more payload while it has no slot.
\<close>

definition publish_budget :: "PollerID \<Rightarrow> EnsurePoller \<Rightarrow> nat" where
  "publish_budget pid p = published_for pid p + (if pendingPolls p pid = None then 1 else 0)"

text \<open>
  No signal is left behind: a channel that was made is closed, unless a slot that is not
  done still holds it.
\<close>

definition all_released :: "EnsurePoller \<Rightarrow> bool" where
  "all_released p \<longleftrightarrow>
     (\<forall>c < next_chan p. c \<in> set (closed p) \<or>
        (\<exists>pid info. pendingPolls p pid = Some info \<and> \<not> pi_done info \<and> pi_ch info = Some c))"


section \<open>JSON values and the gjson accessors\<close>

text \<open>
  The sources hold JSON as raw bytes (\<^verbatim>\<open>json.RawMessage\<close>) or as a parsed
  \<^verbatim>\<open>gjson.Result\<close>. Both are modelled by the value the bytes denote. An object keeps its
  members in the order written, duplicates included. \<open>JNumber\<close> is a number written as an
  integer literal; \<open>JFraction\<close> keeps the text of any other number literal.
\<close>

datatype json =
    JNull
  | JBool bool
  | JNumber int
  | JFraction string
  | JString string
  | JArray "json list"
  | JObject "(string \<times> json) list"

text \<open>
  A \<^verbatim>\<open>gjson.Result\<close> is a value or the result that does not exist. \<^verbatim>\<open>Get\<close> with a path of
  plain keys separated by dots walks objects member by member and takes the first member
  with the key; on anything but an object such a key does not exist.
\<close>

type_synonym gjson_Result = "json option"

fun gjson_Get :: "gjson_Result \<Rightarrow> string list \<Rightarrow> gjson_Result" where
  "gjson_Get r [] = r"
| "gjson_Get (Some (JObject members)) (k # path) = gjson_Get (map_of members k) path"
| "gjson_Get r (k # path) = None"

text \<open>The field \<^verbatim>\<open>Str\<close> is the string of a JSON string and empty for every other result.\<close>

fun gjson_Str :: "gjson_Result \<Rightarrow> string" where
  "gjson_Str (Some (JString s)) = s"
| "gjson_Str r = []"

fun gjson_Exists :: "gjson_Result \<Rightarrow> bool" where
  "gjson_Exists (Some j) = True"
| "gjson_Exists None = False"

fun gjson_IsArray :: "gjson_Result \<Rightarrow> bool" where
  "gjson_IsArray (Some (JArray js)) = True"
| "gjson_IsArray r = False"

fun gjson_IsString :: "gjson_Result \<Rightarrow> bool" where
  "gjson_IsString (Some (JString s)) = True"
| "gjson_IsString r = False"


section \<open>The global room-metadata cache (caches.GlobalCache)\<close>

text \<open>
  \<^verbatim>\<open>internal.Hero\<close> and \<^verbatim>\<open>internal.RoomMetadata\<close> with the fields the cache reads and writes.
  A \<^verbatim>\<open>*string\<close> is a \<open>string option\<close>, the key set of \<^verbatim>\<open>map[string]struct{}\<close> a
  \<open>string set\<close> (every constructor in the sources allocates the map), a \<^verbatim>\<open>uint64\<close> a
  64-bit word. The counts are Go \<^verbatim>\<open>int\<close>s that are only copied.
\<close>

record Hero =
  ID :: string
  Name :: string

record RoomMetadata =
  RoomID :: string
  Heroes :: "Hero list"
  NameEvent :: string
  CanonicalAlias :: string
  JoinCount :: int
  InviteCount :: int
  LastMessageTimestamp :: "64 word"
  Encrypted :: bool
  PredecessorRoomID :: "string option"
  UpgradedRoomID :: "string option"
  RoomType :: "string option"
  ChildSpaceRooms :: "string set"
  TypingEvent :: "json option"

text \<open>The struct \<^verbatim>\<open>EventData\<close>.\<close>

record EventData =
  ed_Event :: json
  ed_RoomID :: string
  ed_EventType :: string
  ed_StateKey :: "string option"
  ed_Content :: gjson_Result
  ed_Timestamp :: "64 word"
  ed_Sender :: string
  ed_JoinCount :: int
  ed_InviteCount :: int
  ed_LatestPos :: int
  ed_ForceInitial :: bool

text \<open>
  The cache: the map from room ids to metadata, and of the storage behind it the one table
  that \<^verbatim>\<open>OnNewEvent\<close> writes, the outstanding invites as pairs of user id and room id.
\<close>

record GlobalCache =
  roomIDToMetadata :: "string \<rightharpoonup> RoomMetadata"
  InvitesTable :: "(string \<times> string) set"

definition NewGlobalCache :: "(string \<times> string) set \<Rightarrow> GlobalCache" where
  "NewGlobalCache invites = \<lparr>roomIDToMetadata = Map.empty, InvitesTable = invites\<rparr>"

text \<open>The zero value of \<^verbatim>\<open>internal.RoomMetadata\<close>, and the literal both listeners build for a
  room that has no entry yet.\<close>

definition zero_RoomMetadata :: RoomMetadata where
  "zero_RoomMetadata =
     \<lparr>RoomID = [], Heroes = [], NameEvent = [], CanonicalAlias = [], JoinCount = 0,
      InviteCount = 0, LastMessageTimestamp = 0, Encrypted = False, PredecessorRoomID = None,
      UpgradedRoomID = None, RoomType = None, ChildSpaceRooms = {}, TypingEvent = None\<rparr>"

definition fresh_RoomMetadata :: "string \<Rightarrow> RoomMetadata" where
  "fresh_RoomMetadata roomID = zero_RoomMetadata\<lparr>RoomID := roomID, ChildSpaceRooms := {}\<rparr>"

definition metadata_or_fresh :: "GlobalCache \<Rightarrow> string \<Rightarrow> RoomMetadata" where
  "metadata_or_fresh c roomID =
     (case roomIDToMetadata c roomID of None \<Rightarrow> fresh_RoomMetadata roomID | Some m \<Rightarrow> m)"

subsection \<open>Startup\<close>

text \<open>
  Modelled from the spec: \<^verbatim>\<open>internal.Assert\<close> is not among the sources. The spec calls the two
  conditions of \<^verbatim>\<open>Startup\<close> an asserted precondition; an assertion whose condition is false
  fails with its message, and \<^verbatim>\<open>Startup\<close> goes no further.
\<close>

datatype assertion_failure = AssertionFailed string

definition Assert :: "string \<Rightarrow> bool \<Rightarrow> assertion_failure + unit" where
  "Assert msg expr = (if expr then Inr () else Inl (AssertionFailed msg))"

text \<open>
  The argument of \<^verbatim>\<open>Startup\<close> is a Go map, given here by its entries. The loop runs over
  the sorted keys, reads each entry back from the map, checks the two assertions and stores
  the entry under its key.
\<close>

definition input_at :: "(string \<times> RoomMetadata) list \<Rightarrow> string \<Rightarrow> RoomMetadata" where
  "input_at entries roomID =
     (case map_of entries roomID of None \<Rightarrow> zero_RoomMetadata | Some m \<Rightarrow> m)"

fun Startup_loop ::
  "string list \<Rightarrow> (string \<times> RoomMetadata) list \<Rightarrow> GlobalCache \<Rightarrow> assertion_failure + GlobalCache" where
  "Startup_loop [] entries c = Inr c"
| "Startup_loop (roomID # roomIDs) entries c =
     (let metadata = input_at entries roomID in
      case Assert ''room ID is set'' (RoomID metadata \<noteq> []) of
        Inl e \<Rightarrow> Inl e
      | Inr _ \<Rightarrow>
          (case Assert ''last message timestamp exists'' (LastMessageTimestamp metadata > 1) of
             Inl e \<Rightarrow> Inl e
           | Inr _ \<Rightarrow>
               Startup_loop roomIDs entries
                 (c\<lparr>roomIDToMetadata := (roomIDToMetadata c)(roomID \<mapsto> metadata)\<rparr>)))"

definition Startup :: "(string \<times> RoomMetadata) list \<Rightarrow> GlobalCache \<Rightarrow> assertion_failure + GlobalCache" where
  "Startup entries c = Startup_loop (sort (map fst entries)) entries c"

subsection \<open>OnEphemeralEvent\<close>

definition OnEphemeralEvent :: "string \<Rightarrow> json \<Rightarrow> GlobalCache \<Rightarrow> GlobalCache" where
  "OnEphemeralEvent roomID ephEvent c =
     (let evType = gjson_Str (gjson_Get (Some ephEvent) [''type'']);
          metadata = metadata_or_fresh c roomID;
          metadata = (if evType = ''m.typing'' then metadata\<lparr>TypingEvent := Some ephEvent\<rparr>
                      else metadata)
      in c\<lparr>roomIDToMetadata := (roomIDToMetadata c)(roomID \<mapsto> metadata)\<rparr>)"

subsection \<open>OnNewEvent\<close>

text \<open>
  Modelled from the spec: \<^verbatim>\<open>internal.IsMembershipChange\<close> is not among the sources. The spec
  speaks of a membership change; \<^verbatim>\<open>OnNewEvent\<close> itself reads the previous membership at
  \<^verbatim>\<open>unsigned.prev_content.membership\<close>, so a change is an event whose membership differs from
  the one there.
\<close>

definition IsMembershipChange :: "gjson_Result \<Rightarrow> bool" where
  "IsMembershipChange eventJSON \<longleftrightarrow>
     gjson_Str (gjson_Get eventJSON [''unsigned'', ''prev_content'', ''membership'']) \<noteq>
     gjson_Str (gjson_Get eventJSON [''content'', ''membership''])"

text \<open>
  Modelled from the spec: the method \<^verbatim>\<open>RemoveHero\<close> of \<^verbatim>\<open>internal.RoomMetadata\<close> is not among
  the sources. By the spec the user is removed from the heroes.
\<close>

definition RemoveHero :: "string \<Rightarrow> RoomMetadata \<Rightarrow> RoomMetadata" where
  "RemoveHero userID m = m\<lparr>Heroes := filter (\<lambda>h. ID h \<noteq> userID) (Heroes m)\<rparr>"

text \<open>
  Modelled from the spec: \<^verbatim>\<open>InvitesTable.RemoveInvite\<close> belongs to the storage, which is not
  among the sources. It retires the invite of the user to the room. \<^verbatim>\<open>OnNewEvent\<close> only logs
  an error of this call and goes on the same way.
\<close>

definition RemoveInvite :: "string \<Rightarrow> string \<Rightarrow> (string \<times> string) set \<Rightarrow> (string \<times> string) set" where
  "RemoveInvite userID roomID invites = invites - {(userID, roomID)}"

text \<open>
  The loop over the heroes: the first hero with the id gets the display name, and the
  result tells whether there was one.
\<close>

fun rename_hero :: "string \<Rightarrow> string \<Rightarrow> Hero list \<Rightarrow> Hero list \<times> bool" where
  "rename_hero userID displayname [] = ([], False)"
| "rename_hero userID displayname (h # hs) =
     (if ID h = userID then (h\<lparr>Name := displayname\<rparr> # hs, True)
      else (case rename_hero userID displayname hs of (hs', found) \<Rightarrow> (h # hs', found)))"

text \<open>
  The branch of the switch for \<^verbatim>\<open>m.room.member\<close> with the state key present, in its two
  parts: what is done on a membership change, and the entry of the hero that follows it.
\<close>

definition on_membership_change ::
  "EventData \<Rightarrow> string \<Rightarrow> RoomMetadata \<times> (string \<times> string) set \<Rightarrow> RoomMetadata \<times> (string \<times> string) set" where
  "on_membership_change ed stateKey st =
     (let membership = gjson_Str (gjson_Get (ed_Content ed) [''membership'']);
          eventJSON = Some (ed_Event ed);
          (metadata, invites) = st;
          metadata = metadata\<lparr>JoinCount := ed_JoinCount ed, InviteCount := ed_InviteCount ed\<rparr>;
          metadata = (if membership = ''leave'' \<or> membership = ''ban''
                      then RemoveHero stateKey metadata else metadata);
          invites = (if membership = ''join'' \<and>
                        gjson_Str (gjson_Get eventJSON [''unsigned'', ''prev_content'', ''membership''])
                          = ''invite''
                     then RemoveInvite stateKey (ed_RoomID ed) invites else invites)
      in (metadata, invites))"

definition enter_hero :: "string \<Rightarrow> string \<Rightarrow> RoomMetadata \<Rightarrow> RoomMetadata" where
  "enter_hero stateKey displayname metadata =
     (case rename_hero stateKey displayname (Heroes metadata) of
        (heroes, found) \<Rightarrow>
          if found then metadata\<lparr>Heroes := heroes\<rparr>
          else metadata\<lparr>Heroes := Heroes metadata @ [\<lparr>ID = stateKey, Name = displayname\<rparr>]\<rparr>)"

definition on_member ::
  "EventData \<Rightarrow> string \<Rightarrow> RoomMetadata \<times> (string \<times> string) set \<Rightarrow> RoomMetadata \<times> (string \<times> string) set" where
  "on_member ed stateKey st =
     (let membership = gjson_Str (gjson_Get (ed_Content ed) [''membership'']);
          eventJSON = Some (ed_Event ed);
          (metadata, invites) =
            (if IsMembershipChange eventJSON then on_membership_change ed stateKey st else st);
          metadata =
            (if length (Heroes metadata) < 6 \<and> (membership = ''join'' \<or> membership = ''invite'')
             then enter_hero stateKey (gjson_Str (gjson_Get (ed_Content ed) [''displayname''])) metadata
             else metadata)
      in (metadata, invites))"

text \<open>The switch on the event type; every branch but the last two asks for the empty state key.\<close>

definition on_event_type ::
  "EventData \<Rightarrow> RoomMetadata \<times> (string \<times> string) set \<Rightarrow> RoomMetadata \<times> (string \<times> string) set" where
  "on_event_type ed st =
     (let (metadata, invites) = st in
      if ed_EventType ed = ''m.room.name'' then
        (if ed_StateKey ed = Some [] then
           (metadata\<lparr>NameEvent := gjson_Str (gjson_Get (ed_Content ed) [''name''])\<rparr>, invites)
         else st)
      else if ed_EventType ed = ''m.room.encryption'' then
        (if ed_StateKey ed = Some [] then (metadata\<lparr>Encrypted := True\<rparr>, invites) else st)
      else if ed_EventType ed = ''m.room.tombstone'' then
        (if ed_StateKey ed = Some [] then
           (let newRoomID = gjson_Str (gjson_Get (ed_Content ed) [''replacement_room'']) in
            if newRoomID = [] then (metadata\<lparr>UpgradedRoomID := None\<rparr>, invites)
            else (metadata\<lparr>UpgradedRoomID := Some newRoomID\<rparr>, invites))
         else st)
      else if ed_EventType ed = ''m.room.canonical_alias'' then
        (if ed_StateKey ed = Some [] then
           (metadata\<lparr>CanonicalAlias := gjson_Str (gjson_Get (ed_Content ed) [''alias''])\<rparr>, invites)
         else st)
      else if ed_EventType ed = ''m.room.create'' then
        (if ed_StateKey ed = Some [] then
           (let roomType = gjson_Get (ed_Content ed) [''type''];
                metadata = (if gjson_Exists roomType \<and> gjson_IsString roomType
                            then metadata\<lparr>RoomType := Some (gjson_Str roomType)\<rparr> else metadata);
                predecessorRoomID = gjson_Str (gjson_Get (ed_Content ed) [''predecessor'', ''room_id'']);
                metadata = (if predecessorRoomID \<noteq> []
                            then metadata\<lparr>PredecessorRoomID := Some predecessorRoomID\<rparr> else metadata)
            in (metadata, invites))
         else st)
      else if ed_EventType ed = ''m.space.child'' then
        (case ed_StateKey ed of
           None \<Rightarrow> st
         | Some stateKey \<Rightarrow>
             (let isDeleted = \<not> gjson_IsArray (gjson_Get (ed_Content ed) [''via'']) in
              if isDeleted then (metadata\<lparr>ChildSpaceRooms := ChildSpaceRooms metadata - {stateKey}\<rparr>, invites)
              else (metadata\<lparr>ChildSpaceRooms := insert stateKey (ChildSpaceRooms metadata)\<rparr>, invites)))
      else if ed_EventType ed = ''m.room.member'' then
        (case ed_StateKey ed of
           None \<Rightarrow> st
         | Some stateKey \<Rightarrow> on_member ed stateKey st)
      else st)"

definition OnNewEvent :: "EventData \<Rightarrow> GlobalCache \<Rightarrow> GlobalCache" where
  "OnNewEvent ed c =
     (let metadata = metadata_or_fresh c (ed_RoomID ed);
          (metadata, invites) = on_event_type ed (metadata, InvitesTable c);
          metadata = metadata\<lparr>LastMessageTimestamp := ed_Timestamp ed\<rparr>
      in c\<lparr>roomIDToMetadata := (roomIDToMetadata c)(ed_RoomID ed \<mapsto> metadata), InvitesTable := invites\<rparr>)"

text \<open>Feeding the cache a sequence of events, oldest first.\<close>

fun OnNewEvents :: "EventData list \<Rightarrow> GlobalCache \<Rightarrow> GlobalCache" where
  "OnNewEvents [] c = c"
| "OnNewEvents (ed # eds) c = OnNewEvents eds (OnNewEvent ed c)"

text \<open>
  The membership an event carries, as \<^verbatim>\<open>OnNewEvent\<close> reads it, and the latest
  \<^verbatim>\<open>m.room.member\<close> event of a sequence for one user of one room.
\<close>

definition membership_of :: "EventData \<Rightarrow> string" where
  "membership_of ed = gjson_Str (gjson_Get (ed_Content ed) [''membership''])"

definition is_member_event_of :: "string \<Rightarrow> string \<Rightarrow> EventData \<Rightarrow> bool" where
  "is_member_event_of roomID userID ed \<longleftrightarrow>
     ed_RoomID ed = roomID \<and> ed_EventType ed = ''m.room.member'' \<and> ed_StateKey ed = Some userID"

fun latest_member_event :: "string \<Rightarrow> string \<Rightarrow> EventData list \<Rightarrow> EventData option" where
  "latest_member_event roomID userID [] = None"
| "latest_member_event roomID userID (ed # eds) =
     (case latest_member_event roomID userID eds of
        Some ed' \<Rightarrow> Some ed'
      | None \<Rightarrow> if is_member_event_of roomID userID ed then Some ed else None)"

text \<open>The ids of the heroes the cache holds for a room.\<close>

definition hero_ids :: "GlobalCache \<Rightarrow> string \<Rightarrow> string list" where
  "hero_ids c roomID = map ID (Heroes (metadata_or_fresh c roomID))"


section \<open>Transactions (sqlutil.WithTransaction)\<close>

text \<open>
  A Go \<^verbatim>\<open>error\<close> is its message, nil is \<open>None\<close>. The callback either returns an error value
  or panics with a value. The value of a panic may be nil, as in \<^verbatim>\<open>panic(nil)\<close> or in
  \<^verbatim>\<open>panic(err)\<close> with a nil \<^verbatim>\<open>err\<close>; any other value is kept as the text \<^verbatim>\<open>%v\<close> prints.
\<close>

type_synonym error = string

datatype fn_outcome = Returns "error option" | Panics "string option"

text \<open>
  What \<^verbatim>\<open>recover\<close> returns after a panic with the nil value depends on the Go runtime: nil
  up to Go 1.20, and later too for a module that declares an older language version; from
  Go 1.21 on a \<^verbatim>\<open>*runtime.PanicNilError\<close>. The sources use generics, so they need Go 1.18, and
  nothing in them fixes the version further: the runtime is a parameter. After a panic with
  any other value \<^verbatim>\<open>recover\<close> returns that value, and nil when there was no panic.
\<close>

datatype go_runtime = NilPanicRecoversNil | NilPanicRecoversPanicNilError

definition recover :: "go_runtime \<Rightarrow> fn_outcome \<Rightarrow> string option" where
  "recover rt outcome =
     (case outcome of
        Returns e \<Rightarrow> None
      | Panics (Some v) \<Rightarrow> Some v
      | Panics None \<Rightarrow>
          (case rt of
             NilPanicRecoversNil \<Rightarrow> None
           | NilPanicRecoversPanicNilError \<Rightarrow> Some ''panic called with nil argument''))"

text \<open>
  The database driver may refuse \<^verbatim>\<open>Beginx\<close>, \<^verbatim>\<open>Commit\<close> and \<^verbatim>\<open>Rollback\<close>; what it answers
  to each is a parameter.
\<close>

record driver =
  Beginx_error :: "error option"
  Commit_error :: "error option"
  Rollback_error :: "error option"

datatype txn_call = NoTransaction | CalledCommit | CalledRollback

text \<open>
  The result of \<^verbatim>\<open>WithTransaction\<close>: the error returned, how the transaction was ended, the
  database afterwards, and the variables of the caller that the callback has captured. A
  rollback, and a commit the driver refuses, leave the database as it was before the
  transaction; captured variables keep what the callback wrote to them.
\<close>

record ('d, 'v) txn_result =
  returned :: "error option"
  ended_by :: txn_call
  database :: 'd
  captured :: 'v

text \<open>
  The callback runs on the database as the transaction sees it and on the captured
  variables. The deferred function calls \<^verbatim>\<open>recover\<close>, which stops any panic, so none leaves
  \<^verbatim>\<open>WithTransaction\<close>. When the callback panics, the assignment \<^verbatim>\<open>err = fn(txn)\<close> does not
  happen and \<^verbatim>\<open>err\<close> is still nil from \<^verbatim>\<open>Beginx\<close>; the deferred function then takes the
  panic for one only if \<^verbatim>\<open>recover\<close> has returned a value that is not nil.
\<close>

definition WithTransaction ::
  "go_runtime \<Rightarrow> driver \<Rightarrow> 'd \<Rightarrow> 'v \<Rightarrow> ('d \<Rightarrow> 'v \<Rightarrow> fn_outcome \<times> 'd \<times> 'v) \<Rightarrow>
     ('d, 'v) txn_result" where
  "WithTransaction rt drv db vars fn =
     (case Beginx_error drv of
        Some e \<Rightarrow>
          \<lparr>returned = Some (''WithTransaction.Begin: '' @ e), ended_by = NoTransaction,
           database = db, captured = vars\<rparr>
      | None \<Rightarrow>
          (case fn db vars of (outcome, txn_db, vars') \<Rightarrow>
             (let err = (case outcome of Returns e \<Rightarrow> e | Panics v \<Rightarrow> None);
                  panicErr = recover rt outcome;
                  err = (case panicErr of
                           Some v \<Rightarrow> if err = None then Some (''panic: '' @ v) else err
                         | None \<Rightarrow> err);
                  txnErr = (if err \<noteq> None then Rollback_error drv else Commit_error drv);
                  call = (if err \<noteq> None then CalledRollback else CalledCommit);
                  db' = (if err = None \<and> txnErr = None then txn_db else db);
                  err = (case txnErr of
                           Some e \<Rightarrow> if err = None
                                     then Some (''WithTransaction failed to commit/rollback: '' @ e)
                                     else err
                         | None \<Rightarrow> err)
              in \<lparr>returned = err, ended_by = call, database = db', captured = vars'\<rparr>)))"

section \<open>Sessions (store.Sessions)\<close>

text \<open>
  The tables \<^verbatim>\<open>syncv3_sessions\<close> and \<^verbatim>\<open>syncv3_sessions_v2devices\<close> and the sequence of session
  ids. The device id is the primary key of the second table, so that table is a map from
  device ids to the user id and the since token. The sequence is kept with the tables, so a
  rollback takes it back too, which PostgreSQL does not do; nothing below reads it after a
  rollback.
\<close>

record session_row =
  row_session_id :: int
  row_device_id :: string
  row_last_confirmed_token :: string
  row_last_unconfirmed_token :: string

record v2device_row =
  row_user_id :: string
  row_since :: string

record sessions_db =
  syncv3_session_id_seq :: int
  syncv3_sessions :: "session_row list"
  syncv3_sessions_v2devices :: "string \<rightharpoonup> v2device_row"

text \<open>The struct \<^verbatim>\<open>sync3.Session\<close> with the fields \<^verbatim>\<open>NewSession\<close> sets.\<close>

record Session =
  sess_ID :: int
  sess_DeviceID :: string
  sess_V2Since :: string
  sess_UserID :: string

text \<open>
  Each statement of the callback may fail in the driver; what the driver answers to each
  is a parameter, as for the transaction itself.
\<close>

record statement_faults =
  insert_session_error :: "error option"
  insert_device_error :: "error option"
  RowsAffected_error :: "error option"
  select_device_error :: "error option"

text \<open>
  The callback of \<^verbatim>\<open>NewSession\<close>. Its captured variable is \<^verbatim>\<open>session\<close>. The first statement
  takes the next session id and inserts the session row; the second inserts the device row
  with empty since and user id unless the device id has a row, and reports the number of rows
  it inserted; the third reads the device row back.
\<close>

definition NewSession_fn ::
  "statement_faults \<Rightarrow> string \<Rightarrow> sessions_db \<Rightarrow> Session option \<Rightarrow> fn_outcome \<times> sessions_db \<times> Session option" where
  "NewSession_fn faults deviceID txn session =
     (case insert_session_error faults of
        Some e \<Rightarrow> (Returns (Some e), txn, session)
      | None \<Rightarrow>
          (let id = syncv3_session_id_seq txn + 1;
               txn = txn\<lparr>syncv3_session_id_seq := id,
                         syncv3_sessions := syncv3_sessions txn @
                           [\<lparr>row_session_id = id, row_device_id = deviceID,
                             row_last_confirmed_token = [], row_last_unconfirmed_token = []\<rparr>]\<rparr>
           in case insert_device_error faults of
                Some e \<Rightarrow> (Returns (Some e), txn, session)
              | None \<Rightarrow>
                  (let ra = (if syncv3_sessions_v2devices txn deviceID = None then 1 else 0 :: int);
                       txn = (if syncv3_sessions_v2devices txn deviceID = None
                              then txn\<lparr>syncv3_sessions_v2devices :=
                                     (syncv3_sessions_v2devices txn)
                                       (deviceID \<mapsto> \<lparr>row_user_id = [], row_since = []\<rparr>)\<rparr>
                              else txn)
                   in if RowsAffected_error faults = None \<and> ra = 1 then
                        (Returns None, txn,
                         Some \<lparr>sess_ID = id, sess_DeviceID = deviceID, sess_V2Since = [], sess_UserID = []\<rparr>)
                      else
                        (case select_device_error faults of
                           Some e \<Rightarrow> (Returns (Some e), txn, session)
                         | None \<Rightarrow>
                             (case syncv3_sessions_v2devices txn deviceID of
                                None \<Rightarrow> (Returns (Some ''sql: no rows in result set''), txn, session)
                              | Some row \<Rightarrow>
                                  (Returns None, txn,
                                   Some \<lparr>sess_ID = id, sess_DeviceID = deviceID,
                                         sess_V2Since = row_since row, sess_UserID = row_user_id row\<rparr>))))))"

definition NewSession ::
  "go_runtime \<Rightarrow> driver \<Rightarrow> statement_faults \<Rightarrow> string \<Rightarrow> sessions_db \<Rightarrow>
     (sessions_db, Session option) txn_result" where
  "NewSession rt drv faults deviceID db = WithTransaction rt drv db None (NewSession_fn faults deviceID)"

text \<open>A driver and statements that never fail.\<close>

definition no_driver_faults :: driver where
  "no_driver_faults = \<lparr>Beginx_error = None, Commit_error = None, Rollback_error = None\<rparr>"

definition no_statement_faults :: statement_faults where
  "no_statement_faults =
     \<lparr>insert_session_error = None, insert_device_error = None, RowsAffected_error = None,
      select_device_error = None\<rparr>"


section \<open>The account data extension (extensions.ProcessAccountData)\<close>

text \<open>
  \<^verbatim>\<open>state.AccountData\<close> is a row of the account data table; the extension reads its room id
  and its data. The response distinguishes a nil slice or map from an empty one.
\<close>

record AccountData =
  ad_UserID :: string
  ad_RoomID :: string
  ad_Type :: string
  ad_Data :: json

record AccountDataResponse =
  Global :: "json list option"
  Rooms :: "(string \<rightharpoonup> json list) option"

definition accountEventsAsJSON :: "AccountData list \<Rightarrow> json list" where
  "accountEventsAsJSON events = map ad_Data events"

text \<open>
  The storage is not among the sources: \<^verbatim>\<open>store.AccountDatas(userID, roomIDs...)\<close> is a
  parameter, a function from the user id and the room ids to an error or rows. With no room
  ids it is the lookup of the global account data.
\<close>

type_synonym AccountDatas = "string \<Rightarrow> string list \<Rightarrow> error + AccountData list"

text \<open>The loop that appends the data of each row to the entry of the row's room.\<close>

definition add_room_data :: "AccountData \<Rightarrow> (string \<rightharpoonup> json list) \<Rightarrow> (string \<rightharpoonup> json list)" where
  "add_room_data ad rooms =
     rooms(ad_RoomID ad \<mapsto> (case rooms (ad_RoomID ad) of None \<Rightarrow> [] | Some ds \<Rightarrow> ds) @ [ad_Data ad])"

text \<open>
  The map \<^verbatim>\<open>roomIDToTimeline\<close> is given by its entries in the order the \<^verbatim>\<open>range\<close> loop meets
  them. An error of the storage is logged and the field of the response stays nil. The
  parameters \<^verbatim>\<open>deltaData\<close> and \<^verbatim>\<open>req\<close> are not read.
\<close>

definition ProcessAccountData ::
  "AccountDatas \<Rightarrow> (string \<times> string list) list \<Rightarrow> string \<Rightarrow> bool \<Rightarrow> AccountDataResponse" where
  "ProcessAccountData store roomIDToTimeline userID isInitial =
     (let roomIDs = map fst roomIDToTimeline;
          res = \<lparr>Global = None, Rooms = None\<rparr>;
          res = (if length roomIDs > 0 then
                   (case store userID roomIDs of
                      Inl err \<Rightarrow> res
                    | Inr roomsAccountData \<Rightarrow>
                        res\<lparr>Rooms := Some (fold add_room_data roomsAccountData Map.empty)\<rparr>)
                 else res);
          res = (if isInitial then
                   (case store userID [] of
                      Inl err \<Rightarrow> res
                    | Inr globalAccountData \<Rightarrow>
                        res\<lparr>Global := Some (accountEventsAsJSON globalAccountData)\<rparr>)
                 else res)
      in res)"

text \<open>The rows of one room, grouped as the response has them.\<close>

definition room_data :: "AccountData list \<Rightarrow> string \<rightharpoonup> json list" where
  "room_data rows roomID =
     (if roomID \<in> ad_RoomID ` set rows
      then Some (map ad_Data (filter (\<lambda>ad. ad_RoomID ad = roomID) rows)) else None)"


section \<open>The response and its JSON form (sync3.Response)\<close>

text \<open>
  The two kinds of list operation and the interface \<^verbatim>\<open>ResponseOp\<close> they implement. Go's \<^verbatim>\<open>int\<close>
  and \<^verbatim>\<open>int64\<close> are 64-bit words read as signed; \<^verbatim>\<open>*int\<close> is an optional word; a slice that
  may be nil is an optional list.
\<close>

record ResponseOpRange =
  rng_Operation :: string
  rng_Range :: "64 word \<times> 64 word"
  rng_RoomIDs :: "string list option"

record ResponseOpSingle =
  sgl_Operation :: string
  sgl_Index :: "64 word option"
  sgl_RoomID :: string

datatype ResponseOp = OpRange ResponseOpRange | OpSingle ResponseOpSingle

record ResponseList =
  Ops :: "ResponseOp list"
  Count :: "64 word"

text \<open>
  The types \<^verbatim>\<open>Room\<close> and \<^verbatim>\<open>extensions.Response\<close> are not among the sources: the response is
  generic in them, and their JSON coding and zero values are parameters. The map \<^verbatim>\<open>Lists\<close>
  is given by its entries.
\<close>

record ('r, 'e) Response =
  resp_Lists :: "(string \<times> ResponseList) list"
  resp_Rooms :: 'r
  resp_Extensions :: 'e
  resp_Pos :: string
  resp_TxnID :: string

datatype unmarshal_error = UnmarshalTypeError string

record ('r, 'e) coding =
  zero_Rooms :: 'r
  zero_Extensions :: 'e
  enc_Rooms :: "'r \<Rightarrow> json"
  enc_Extensions :: "'e \<Rightarrow> json"
  dec_Rooms :: "'r \<Rightarrow> json \<Rightarrow> unmarshal_error + 'r"
  dec_Extensions :: "'e \<Rightarrow> json \<Rightarrow> unmarshal_error + 'e"

subsection \<open>Marshalling (encoding/json on the struct tags)\<close>

text \<open>
  A field tagged \<^verbatim>\<open>omitempty\<close> is left out when it is a nil pointer, an empty string or a
  slice of length zero. The array \<^verbatim>\<open>[2]int64\<close> has length two and is never left out. The
  members come in the order of the fields, those of a map sorted by key.
\<close>

definition marshal_int :: "64 word \<Rightarrow> json" where
  "marshal_int w = JNumber (sint w)"

definition marshal_ResponseOpSingle :: "ResponseOpSingle \<Rightarrow> json" where
  "marshal_ResponseOpSingle r =
     JObject ([(''op'', JString (sgl_Operation r))] @
              (case sgl_Index r of None \<Rightarrow> [] | Some i \<Rightarrow> [(''index'', marshal_int i)]) @
              (if sgl_RoomID r = [] then [] else [(''room_id'', JString (sgl_RoomID r))]))"

definition marshal_ResponseOpRange :: "ResponseOpRange \<Rightarrow> json" where
  "marshal_ResponseOpRange r =
     JObject ([(''op'', JString (rng_Operation r)),
               (''range'', JArray [marshal_int (fst (rng_Range r)), marshal_int (snd (rng_Range r))])] @
              (case rng_RoomIDs r of
                 None \<Rightarrow> []
               | Some ids \<Rightarrow> if ids = [] then [] else [(''room_ids'', JArray (map JString ids))]))"

fun marshal_ResponseOp :: "ResponseOp \<Rightarrow> json" where
  "marshal_ResponseOp (OpRange r) = marshal_ResponseOpRange r"
| "marshal_ResponseOp (OpSingle r) = marshal_ResponseOpSingle r"

definition marshal_ResponseList :: "ResponseList \<Rightarrow> json" where
  "marshal_ResponseList l =
     JObject ((if Ops l = [] then [] else [(''ops'', JArray (map marshal_ResponseOp (Ops l)))]) @
              [(''count'', marshal_int (Count l))])"

definition marshal_Response :: "('r, 'e) coding \<Rightarrow> ('r, 'e) Response \<Rightarrow> json" where
  "marshal_Response cd r =
     JObject ([(''lists'', JObject (map (\<lambda>(k, l). (k, marshal_ResponseList l))
                                        (sort_key fst (resp_Lists r)))),
               (''rooms'', enc_Rooms cd (resp_Rooms r)),
               (''extensions'', enc_Extensions cd (resp_Extensions r)),
               (''pos'', JString (resp_Pos r))] @
              (if resp_TxnID r = [] then [] else [(''txn_id'', JString (resp_TxnID r))]))"

subsection \<open>Unmarshalling (encoding/json)\<close>

text \<open>
  \<^verbatim>\<open>json.Unmarshal\<close> into a value: \<^verbatim>\<open>null\<close> leaves a value that is no pointer or slice as it
  is and makes a pointer or slice nil; a JSON value of the wrong kind, or a number that is no
  64-bit integer, is an error. An array shorter than a Go array leaves zeros, a longer one
  is cut.
\<close>

definition in_int64 :: "int \<Rightarrow> bool" where
  "in_int64 n \<longleftrightarrow> - (2 ^ 63) \<le> n \<and> n < 2 ^ 63"

fun unmarshal_string :: "string \<Rightarrow> json \<Rightarrow> unmarshal_error + string" where
  "unmarshal_string cur (JString s) = Inr s"
| "unmarshal_string cur JNull = Inr cur"
| "unmarshal_string cur j = Inl (UnmarshalTypeError ''string'')"

fun unmarshal_int :: "64 word \<Rightarrow> json \<Rightarrow> unmarshal_error + 64 word" where
  "unmarshal_int cur (JNumber n) =
     (if in_int64 n then Inr (word_of_int n) else Inl (UnmarshalTypeError ''int''))"
| "unmarshal_int cur JNull = Inr cur"
| "unmarshal_int cur j = Inl (UnmarshalTypeError ''int'')"

fun unmarshal_int_ptr :: "64 word option \<Rightarrow> json \<Rightarrow> unmarshal_error + 64 word option" where
  "unmarshal_int_ptr cur JNull = Inr None"
| "unmarshal_int_ptr cur j =
     (case unmarshal_int (case cur of None \<Rightarrow> 0 | Some w \<Rightarrow> w) j of
        Inl e \<Rightarrow> Inl e | Inr w \<Rightarrow> Inr (Some w))"

fun unmarshal_all :: "(json \<Rightarrow> unmarshal_error + 'a) \<Rightarrow> json list \<Rightarrow> unmarshal_error + 'a list" where
  "unmarshal_all f [] = Inr []"
| "unmarshal_all f (j # js) =
     (case f j of
        Inl e \<Rightarrow> Inl e
      | Inr a \<Rightarrow> (case unmarshal_all f js of Inl e \<Rightarrow> Inl e | Inr as \<Rightarrow> Inr (a # as)))"

fun unmarshal_int_pair :: "64 word \<times> 64 word \<Rightarrow> json \<Rightarrow> unmarshal_error + 64 word \<times> 64 word" where
  "unmarshal_int_pair cur JNull = Inr cur"
| "unmarshal_int_pair cur (JArray []) = Inr (0, 0)"
| "unmarshal_int_pair cur (JArray [x]) =
     (case unmarshal_int (fst cur) x of Inl e \<Rightarrow> Inl e | Inr a \<Rightarrow> Inr (a, 0))"
| "unmarshal_int_pair cur (JArray (x # y # zs)) =
     (case unmarshal_int (fst cur) x of
        Inl e \<Rightarrow> Inl e
      | Inr a \<Rightarrow> (case unmarshal_int (snd cur) y of Inl e \<Rightarrow> Inl e | Inr b \<Rightarrow> Inr (a, b)))"
| "unmarshal_int_pair cur j = Inl (UnmarshalTypeError ''[2]int64'')"

fun unmarshal_string_slice :: "string list option \<Rightarrow> json \<Rightarrow> unmarshal_error + string list option" where
  "unmarshal_string_slice cur JNull = Inr None"
| "unmarshal_string_slice cur (JArray js) =
     (case unmarshal_all (unmarshal_string []) js of Inl e \<Rightarrow> Inl e | Inr ss \<Rightarrow> Inr (Some ss))"
| "unmarshal_string_slice cur j = Inl (UnmarshalTypeError ''[]string'')"

fun unmarshal_raw_slice :: "json list \<Rightarrow> json \<Rightarrow> unmarshal_error + json list" where
  "unmarshal_raw_slice cur JNull = Inr []"
| "unmarshal_raw_slice cur (JArray js) = Inr js"
| "unmarshal_raw_slice cur j = Inl (UnmarshalTypeError ''[]json.RawMessage'')"

text \<open>
  A member of a JSON object goes to the field whose name equals its key up to the case of
  letters (the folding of encoding/json, taken here on ASCII); a member that no field takes
  is skipped. The members are taken in the order written, so that of two members for one
  field the later one stays, and the first error is the one returned.
\<close>

definition ascii_lower :: "char \<Rightarrow> char" where
  "ascii_lower c =
     (case map_of (zip ''ABCDEFGHIJKLMNOPQRSTUVWXYZ'' ''abcdefghijklmnopqrstuvwxyz'') c of
        None \<Rightarrow> c
      | Some l \<Rightarrow> l)"

definition key_is :: "string \<Rightarrow> string \<Rightarrow> bool" where
  "key_is name k \<longleftrightarrow> map ascii_lower k = name"

fun unmarshal_members ::
  "(string \<Rightarrow> json \<Rightarrow> 'a \<Rightarrow> unmarshal_error + 'a) \<Rightarrow> (string \<times> json) list \<Rightarrow> 'a \<Rightarrow> unmarshal_error + 'a" where
  "unmarshal_members field [] a = Inr a"
| "unmarshal_members field ((k, v) # members) a =
     (case field k v a of Inl e \<Rightarrow> Inl e | Inr a' \<Rightarrow> unmarshal_members field members a')"

fun unmarshal_struct ::
  "string \<Rightarrow> (string \<Rightarrow> json \<Rightarrow> 'a \<Rightarrow> unmarshal_error + 'a) \<Rightarrow> 'a \<Rightarrow> json \<Rightarrow> unmarshal_error + 'a" where
  "unmarshal_struct ty field a JNull = Inr a"
| "unmarshal_struct ty field a (JObject members) = unmarshal_members field members a"
| "unmarshal_struct ty field a j = Inl (UnmarshalTypeError ty)"

definition ResponseOpRange_field ::
  "string \<Rightarrow> json \<Rightarrow> ResponseOpRange \<Rightarrow> unmarshal_error + ResponseOpRange" where
  "ResponseOpRange_field k v r =
     (if key_is ''op'' k then
        map_sum id (\<lambda>s. r\<lparr>rng_Operation := s\<rparr>) (unmarshal_string (rng_Operation r) v)
      else if key_is ''range'' k then
        map_sum id (\<lambda>p. r\<lparr>rng_Range := p\<rparr>) (unmarshal_int_pair (rng_Range r) v)
      else if key_is ''room_ids'' k then
        map_sum id (\<lambda>ids. r\<lparr>rng_RoomIDs := ids\<rparr>) (unmarshal_string_slice (rng_RoomIDs r) v)
      else Inr r)"

definition ResponseOpSingle_field ::
  "string \<Rightarrow> json \<Rightarrow> ResponseOpSingle \<Rightarrow> unmarshal_error + ResponseOpSingle" where
  "ResponseOpSingle_field k v r =
     (if key_is ''op'' k then
        map_sum id (\<lambda>s. r\<lparr>sgl_Operation := s\<rparr>) (unmarshal_string (sgl_Operation r) v)
      else if key_is ''index'' k then
        map_sum id (\<lambda>i. r\<lparr>sgl_Index := i\<rparr>) (unmarshal_int_ptr (sgl_Index r) v)
      else if key_is ''room_id'' k then
        map_sum id (\<lambda>s. r\<lparr>sgl_RoomID := s\<rparr>) (unmarshal_string (sgl_RoomID r) v)
      else Inr r)"

definition unmarshal_ResponseOpRange :: "json \<Rightarrow> unmarshal_error + ResponseOpRange" where
  "unmarshal_ResponseOpRange =
     unmarshal_struct ''sync3.ResponseOpRange'' ResponseOpRange_field
       \<lparr>rng_Operation = [], rng_Range = (0, 0), rng_RoomIDs = None\<rparr>"

definition unmarshal_ResponseOpSingle :: "json \<Rightarrow> unmarshal_error + ResponseOpSingle" where
  "unmarshal_ResponseOpSingle =
     unmarshal_struct ''sync3.ResponseOpSingle'' ResponseOpSingle_field
       \<lparr>sgl_Operation = [], sgl_Index = None, sgl_RoomID = []\<rparr>"

subsection \<open>Response.UnmarshalJSON\<close>

text \<open>
  The struct \<^verbatim>\<open>temporary\<close>, which keeps the operations of each list as raw JSON. Decoding
  an object into the map of lists stores a new element under each key, a later member
  replacing an earlier one with the same key.
\<close>

record temporary_list =
  tmp_Ops :: "json list"
  tmp_Count :: "64 word"

record ('r, 'e) temporary =
  tmp_Rooms :: 'r
  tmp_Lists :: "(string \<times> temporary_list) list"
  tmp_Extensions :: 'e
  tmp_Pos :: string
  tmp_TxnID :: string

fun map_store :: "string \<Rightarrow> 'a \<Rightarrow> (string \<times> 'a) list \<Rightarrow> (string \<times> 'a) list" where
  "map_store k v [] = [(k, v)]"
| "map_store k v ((k', v') # kvs) =
     (if k = k' then (k, v) # kvs else (k', v') # map_store k v kvs)"

definition temporary_list_field ::
  "string \<Rightarrow> json \<Rightarrow> temporary_list \<Rightarrow> unmarshal_error + temporary_list" where
  "temporary_list_field k v l =
     (if key_is ''ops'' k then
        map_sum id (\<lambda>ops. l\<lparr>tmp_Ops := ops\<rparr>) (unmarshal_raw_slice (tmp_Ops l) v)
      else if key_is ''count'' k then
        map_sum id (\<lambda>n. l\<lparr>tmp_Count := n\<rparr>) (unmarshal_int (tmp_Count l) v)
      else Inr l)"

definition unmarshal_temporary_list :: "json \<Rightarrow> unmarshal_error + temporary_list" where
  "unmarshal_temporary_list =
     unmarshal_struct ''struct'' temporary_list_field \<lparr>tmp_Ops = [], tmp_Count = 0\<rparr>"

definition temporary_Lists_member ::
  "string \<Rightarrow> json \<Rightarrow> (string \<times> temporary_list) list \<Rightarrow> unmarshal_error + (string \<times> temporary_list) list" where
  "temporary_Lists_member k v lsts =
     map_sum id (\<lambda>l. map_store k l lsts) (unmarshal_temporary_list v)"

definition temporary_field ::
  "('r, 'e) coding \<Rightarrow> string \<Rightarrow> json \<Rightarrow> ('r, 'e) temporary \<Rightarrow> unmarshal_error + ('r, 'e) temporary" where
  "temporary_field cd k v t =
     (if key_is ''rooms'' k then
        map_sum id (\<lambda>x. t\<lparr>tmp_Rooms := x\<rparr>) (dec_Rooms cd (tmp_Rooms t) v)
      else if key_is ''lists'' k then
        map_sum id (\<lambda>x. t\<lparr>tmp_Lists := x\<rparr>)
          (unmarshal_struct ''map[string]struct'' temporary_Lists_member (tmp_Lists t) v)
      else if key_is ''extensions'' k then
        map_sum id (\<lambda>x. t\<lparr>tmp_Extensions := x\<rparr>) (dec_Extensions cd (tmp_Extensions t) v)
      else if key_is ''pos'' k then
        map_sum id (\<lambda>x. t\<lparr>tmp_Pos := x\<rparr>) (unmarshal_string (tmp_Pos t) v)
      else if key_is ''txn_id'' k then
        map_sum id (\<lambda>x. t\<lparr>tmp_TxnID := x\<rparr>) (unmarshal_string (tmp_TxnID t) v)
      else Inr t)"

definition unmarshal_temporary :: "('r, 'e) coding \<Rightarrow> json \<Rightarrow> unmarshal_error + ('r, 'e) temporary" where
  "unmarshal_temporary cd =
     unmarshal_struct ''struct'' (temporary_field cd)
       \<lparr>tmp_Rooms = zero_Rooms cd, tmp_Lists = [], tmp_Extensions = zero_Extensions cd,
        tmp_Pos = [], tmp_TxnID = []\<rparr>"

text \<open>
  The inner loop over the raw operations of a list: an operation in which gjson finds
  \<^verbatim>\<open>range\<close> is unmarshalled as a \<^verbatim>\<open>ResponseOpRange\<close>, any other as a \<^verbatim>\<open>ResponseOpSingle\<close>.
\<close>

fun unmarshal_ops :: "json list \<Rightarrow> unmarshal_error + ResponseOp list" where
  "unmarshal_ops [] = Inr []"
| "unmarshal_ops (op # ops) =
     (case (if gjson_Exists (gjson_Get (Some op) [''range''])
            then map_sum id OpRange (unmarshal_ResponseOpRange op)
            else map_sum id OpSingle (unmarshal_ResponseOpSingle op)) of
        Inl err \<Rightarrow> Inl err
      | Inr oper \<Rightarrow>
          (case unmarshal_ops ops of Inl err \<Rightarrow> Inl err | Inr opers \<Rightarrow> Inr (oper # opers)))"

text \<open>The outer loop over the lists, and the method.\<close>

fun unmarshal_lists ::
  "(string \<times> temporary_list) list \<Rightarrow> unmarshal_error + (string \<times> ResponseList) list" where
  "unmarshal_lists [] = Inr []"
| "unmarshal_lists ((listKey, l) # ls) =
     (case unmarshal_ops (tmp_Ops l) of
        Inl err \<Rightarrow> Inl err
      | Inr ops \<Rightarrow>
          (case unmarshal_lists ls of
             Inl err \<Rightarrow> Inl err
           | Inr lsts \<Rightarrow> Inr ((listKey, \<lparr>Ops = ops, Count = tmp_Count l\<rparr>) # lsts)))"

definition UnmarshalJSON :: "('r, 'e) coding \<Rightarrow> json \<Rightarrow> unmarshal_error + ('r, 'e) Response" where
  "UnmarshalJSON cd b =
     (case unmarshal_temporary cd b of
        Inl err \<Rightarrow> Inl err
      | Inr temporary \<Rightarrow>
          (case unmarshal_lists (tmp_Lists temporary) of
             Inl err \<Rightarrow> Inl err
           | Inr lsts \<Rightarrow>
               Inr \<lparr>resp_Lists = lsts, resp_Rooms = tmp_Rooms temporary,
                    resp_Extensions = tmp_Extensions temporary, resp_Pos = tmp_Pos temporary,
                    resp_TxnID = tmp_TxnID temporary\<rparr>))"

text \<open>
  How an operation of the result stands to the raw operation at its place: a range
  operation comes from a raw operation with \<^verbatim>\<open>range\<close>, a single one from one without, each
  by its own unmarshalling.
\<close>

fun parsed_from :: "ResponseOp \<Rightarrow> json \<Rightarrow> bool" where
  "parsed_from (OpRange r) raw \<longleftrightarrow>
     gjson_Exists (gjson_Get (Some raw) [''range'']) \<and> unmarshal_ResponseOpRange raw = Inr r"
| "parsed_from (OpSingle r) raw \<longleftrightarrow>
     \<not> gjson_Exists (gjson_Get (Some raw) [''range'']) \<and> unmarshal_ResponseOpSingle raw = Inr r"

definition list_parsed_from :: "string \<times> ResponseList \<Rightarrow> string \<times> temporary_list \<Rightarrow> bool" where
  "list_parsed_from kl kt \<longleftrightarrow>
     fst kl = fst kt \<and> Count (snd kl) = tmp_Count (snd kt) \<and>
     list_all2 parsed_from (Ops (snd kl)) (tmp_Ops (snd kt))"

text \<open>What marshalling and unmarshalling again make of an operation: a room id slice without
  elements comes back nil.\<close>

fun renil :: "ResponseOp \<Rightarrow> ResponseOp" where
  "renil (OpRange r) = OpRange (r\<lparr>rng_RoomIDs := (if rng_RoomIDs r = Some [] then None else rng_RoomIDs r)\<rparr>)"
| "renil (OpSingle r) = OpSingle r"

text \<open>The temporary form of a list whose operations are marshalled.\<close>

definition as_temporary :: "string \<times> ResponseList \<Rightarrow> string \<times> temporary_list" where
  "as_temporary kl = (fst kl, \<lparr>tmp_Ops = map marshal_ResponseOp (Ops (snd kl)), tmp_Count = Count (snd kl)\<rparr>)"


section \<open>Concrete events and caches\<close>

text \<open>Inputs at which the theorems below are instantiated.\<close>

definition member_event :: "string \<Rightarrow> string \<Rightarrow> string \<Rightarrow> string option \<Rightarrow> EventData" where
  "member_event roomID userID membership prev =
     \<lparr>ed_Event = JObject ([(''type'', JString ''m.room.member''), (''state_key'', JString userID),
                           (''content'', JObject [(''membership'', JString membership)])] @
                          (case prev of None \<Rightarrow> []
                           | Some p \<Rightarrow> [(''unsigned'', JObject [(''prev_content'', JObject [(''membership'', JString p)])])])),
      ed_RoomID = roomID, ed_EventType = ''m.room.member'', ed_StateKey = Some userID,
      ed_Content = Some (JObject [(''membership'', JString membership)]),
      ed_Timestamp = 1000, ed_Sender = userID, ed_JoinCount = 1, ed_InviteCount = 0,
      ed_LatestPos = 1, ed_ForceInitial = False\<rparr>"


definition room_with_timestamp :: "string \<Rightarrow> 64 word \<Rightarrow> RoomMetadata" where
  "room_with_timestamp roomID ts = (fresh_RoomMetadata roomID)\<lparr>LastMessageTimestamp := ts\<rparr>"

definition typing_edu :: json where
  "typing_edu = JObject [(''type'', JString ''m.typing''),
                         (''content'', JObject [(''user_ids'', JArray [JString ''@alice:hs''])])]"

definition receipt_edu :: json where
  "receipt_edu = JObject [(''type'', JString ''m.receipt''), (''content'', JObject [])]"

definition cache_with_room :: GlobalCache where
  "cache_with_room =
     \<lparr>roomIDToMetadata = [''!r:hs'' \<mapsto> room_with_timestamp ''!r:hs'' 1000], InvitesTable = {}\<rparr>"

definition failing_fn :: "nat \<Rightarrow> unit \<Rightarrow> fn_outcome \<times> nat \<times> unit" where
  "failing_fn txn vars = (Returns (Some ''constraint violated''), txn + 1, vars)"

definition panicking_fn :: "nat \<Rightarrow> unit \<Rightarrow> fn_outcome \<times> nat \<times> unit" where
  "panicking_fn txn vars = (Panics (Some ''index out of range''), txn + 1, vars)"

definition nil_panicking_fn :: "nat \<Rightarrow> unit \<Rightarrow> fn_outcome \<times> nat \<times> unit" where
  "nil_panicking_fn txn vars = (Panics None, txn + 1, vars)"

definition writing_fn :: "nat \<Rightarrow> unit \<Rightarrow> fn_outcome \<times> nat \<times> unit" where
  "writing_fn txn vars = (Returns None, txn + 1, vars)"

definition one_device_db :: sessions_db where
  "one_device_db =
     \<lparr>syncv3_session_id_seq = 5, syncv3_sessions = [],
      syncv3_sessions_v2devices = [''DEV1'' \<mapsto> \<lparr>row_user_id = ''@alice:hs'', row_since = ''s42''\<rparr>]\<rparr>"

definition unavailable_store :: AccountDatas where
  "unavailable_store userID roomIDs = Inl ''connection refused''"

definition tag_row :: AccountData where
  "tag_row = \<lparr>ad_UserID = ''@alice:hs'', ad_RoomID = ''!r:hs'', ad_Type = ''m.tag'',
              ad_Data = JObject [(''type'', JString ''m.tag'')]\<rparr>"

definition direct_row :: AccountData where
  "direct_row = \<lparr>ad_UserID = ''@alice:hs'', ad_RoomID = [], ad_Type = ''m.direct'',
                 ad_Data = JObject [(''type'', JString ''m.direct'')]\<rparr>"

definition small_store :: AccountDatas where
  "small_store userID roomIDs =
     (if roomIDs = [] then Inr [direct_row]
      else Inr (filter (\<lambda>ad. ad_RoomID ad \<in> set roomIDs) [tag_row]))"

definition unit_coding :: "(unit, unit) coding" where
  "unit_coding =
     \<lparr>zero_Rooms = (), zero_Extensions = (),
      enc_Rooms = (\<lambda>rooms. JObject []), enc_Extensions = (\<lambda>ext. JObject []),
      dec_Rooms = (\<lambda>cur j. Inr ()), dec_Extensions = (\<lambda>cur j. Inr ())\<rparr>"

definition delete_at_zero :: ResponseOpSingle where
  "delete_at_zero = \<lparr>sgl_Operation = ''DELETE'', sgl_Index = Some 0, sgl_RoomID = []\<rparr>"

definition sync_two :: ResponseOpRange where
  "sync_two = \<lparr>rng_Operation = ''SYNC'', rng_Range = (0, 1), rng_RoomIDs = Some [''!a:hs'', ''!b:hs'']\<rparr>"

definition small_response :: "(unit, unit) Response" where
  "small_response =
     \<lparr>resp_Lists = [(''a'', \<lparr>Ops = [OpSingle delete_at_zero, OpRange sync_two], Count = 2\<rparr>)],
      resp_Rooms = (), resp_Extensions = (), resp_Pos = ''5'', resp_TxnID = []\<rparr>"


section \<open>Proofs: the poller-ready gate\<close>

lemma gate_inv_New: "gate_inv NewEnsurePoller"
  by (simp add: gate_inv_def NewEnsurePoller_def)

lemma gate_inv_done:
  "gate_inv p \<Longrightarrow> pendingPolls p pid = Some info \<Longrightarrow> pi_done info \<Longrightarrow> pi_ch info = None"
  unfolding gate_inv_def by (elim conjE allE [of _ pid] allE [of _ info]) simp

lemma gate_inv_pending:
  "gate_inv p \<Longrightarrow> pendingPolls p pid = Some info \<Longrightarrow> \<not> pi_done info \<Longrightarrow>
   \<exists>c. pi_ch info = Some c \<and> c < next_chan p \<and> c \<notin> set (closed p)"
  unfolding gate_inv_def by (elim conjE allE [of _ pid] allE [of _ info]) simp

lemma gate_inv_inj:
  "gate_inv p \<Longrightarrow> pendingPolls p pid = Some info \<Longrightarrow> pendingPolls p pid' = Some info' \<Longrightarrow>
   pi_ch info = Some c \<Longrightarrow> pi_ch info' = Some c \<Longrightarrow> pid = pid'"
  unfolding gate_inv_def by blast

lemma gate_inv_closed: "gate_inv p \<Longrightarrow> c \<in> set (closed p) \<Longrightarrow> c < next_chan p"
  unfolding gate_inv_def by blast

lemma gate_inv_distinct: "gate_inv p \<Longrightarrow> distinct (closed p)"
  unfolding gate_inv_def by blast

lemma gate_inv_chan_bound:
  assumes "gate_inv p" "pendingPolls p pid = Some info" "pi_ch info = Some c"
  shows "c < next_chan p \<and> c \<notin> set (closed p) \<and> \<not> pi_done info"
proof -
  have nd: "\<not> pi_done info" using gate_inv_done [OF assms(1,2)] assms(3) by auto
  from gate_inv_pending [OF assms(1,2) nd] assms(3) show ?thesis using nd by auto
qed

lemma gate_invI:
  assumes "\<And>pid info. pendingPolls p pid = Some info \<Longrightarrow> pi_done info \<Longrightarrow> pi_ch info = None"
    and "\<And>pid info. pendingPolls p pid = Some info \<Longrightarrow> \<not> pi_done info \<Longrightarrow>
           \<exists>c. pi_ch info = Some c \<and> c < next_chan p \<and> c \<notin> set (closed p)"
    and "\<And>pid pid' info info' c. pendingPolls p pid = Some info \<Longrightarrow> pendingPolls p pid' = Some info' \<Longrightarrow>
           pi_ch info = Some c \<Longrightarrow> pi_ch info' = Some c \<Longrightarrow> pid = pid'"
    and "\<And>c. c \<in> set (closed p) \<Longrightarrow> c < next_chan p"
    and "distinct (closed p)"
  shows "gate_inv p"
proof -
  have 1: "\<forall>pid info. pendingPolls p pid = Some info \<longrightarrow>
        (if pi_done info then pi_ch info = None
         else \<exists>c. pi_ch info = Some c \<and> c < next_chan p \<and> c \<notin> set (closed p))"
    using assms(1,2) by simp
  have 2: "\<forall>pid pid' info info' c. pendingPolls p pid = Some info \<and> pendingPolls p pid' = Some info' \<and>
        pi_ch info = Some c \<and> pi_ch info' = Some c \<longrightarrow> pid = pid'"
    using assms(3) by blast
  have 3: "\<forall>c \<in> set (closed p). c < next_chan p" using assms(4) by blast
  show ?thesis unfolding gate_inv_def using 1 2 3 assms(5) by blast
qed

lemma pending_at_no_slot:
  assumes "gate_inv p" "\<not> pi_done (pending_at p pid)" "pi_ch (pending_at p pid) = None"
  shows "pendingPolls p pid = None"
proof (cases "pendingPolls p pid")
  case None then show ?thesis .
next
  case (Some i)
  then have "pending_at p pid = i" by (simp add: pending_at_def)
  with assms gate_inv_pending [OF assms(1) Some] show ?thesis by auto
qed

lemma EnsurePolling_fresh:
  assumes "pendingPolls p pid = None"
  shows "EnsurePolling pid tok p =
      (p\<lparr>pendingPolls := (pendingPolls p)(pid \<mapsto> \<lparr>pi_done = False, pi_ch = Some (next_chan p)\<rparr>),
        next_chan := Suc (next_chan p),
        notified := notified p @ [V3EnsurePolling (UserID pid) (DeviceID pid) tok]\<rparr>, BlocksOn (next_chan p))"
  using assms by (simp add: EnsurePolling_def pending_at_def zero_pendingInfo_def Let_def)

lemma EnsurePolling_slot:
  assumes "gate_inv p" "pendingPolls p pid = Some info"
  shows "EnsurePolling pid tok p =
      (p, if pi_done info then ReturnsAtOnce else (case pi_ch info of Some c \<Rightarrow> BlocksOn c | None \<Rightarrow> ReturnsAtOnce))"
proof (cases "pi_done info")
  case True
  then show ?thesis using assms(2) by (simp add: EnsurePolling_def pending_at_def)
next
  case False
  from gate_inv_pending [OF assms False] obtain c where "pi_ch info = Some c" by blast
  then show ?thesis using False assms(2) by (simp add: EnsurePolling_def pending_at_def)
qed

lemma gate_inv_EnsurePolling:
  assumes "gate_inv p" shows "gate_inv (fst (EnsurePolling pid tok p))"
proof (cases "pendingPolls p pid")
  case (Some info)
  then show ?thesis using assms by (simp add: EnsurePolling_slot)
next
  case None
  let ?p' = "p\<lparr>pendingPolls := (pendingPolls p)(pid \<mapsto> \<lparr>pi_done = False, pi_ch = Some (next_chan p)\<rparr>),
        next_chan := Suc (next_chan p),
        notified := notified p @ [V3EnsurePolling (UserID pid) (DeviceID pid) tok]\<rparr>"
  have "gate_inv ?p'"
  proof (rule gate_invI)
    fix q info assume "pendingPolls ?p' q = Some info" "pi_done info"
    then show "pi_ch info = None"
      using gate_inv_done [OF assms, of q info] by (auto split: if_splits)
  next
    fix q info assume a: "pendingPolls ?p' q = Some info" "\<not> pi_done info"
    show "\<exists>c. pi_ch info = Some c \<and> c < next_chan ?p' \<and> c \<notin> set (closed ?p')"
    proof (cases "q = pid")
      case True
      with a have "pi_ch info = Some (next_chan p)" by auto
      moreover have "next_chan p \<notin> set (closed p)" using gate_inv_closed [OF assms, of "next_chan p"] by auto
      ultimately show ?thesis by simp
    next
      case False
      with a have "pendingPolls p q = Some info" by simp
      from gate_inv_pending [OF assms this a(2)] show ?thesis by auto
    qed
  next
    fix q q' info info' c
    assume a: "pendingPolls ?p' q = Some info" "pendingPolls ?p' q' = Some info'"
      "pi_ch info = Some c" "pi_ch info' = Some c"
    have old: "c < next_chan p" if "r \<noteq> pid" "pendingPolls ?p' r = Some i" "pi_ch i = Some c" for r i
      using that gate_inv_chan_bound [OF assms, of r i c] by simp
    have new: "c = next_chan p" if "pendingPolls ?p' pid = Some i" "pi_ch i = Some c" for i
      using that by auto
    show "q = q'"
    proof (cases "q = pid"; cases "q' = pid")
      assume "q = pid" "q' \<noteq> pid"
      with a old [of q' info'] new [of info] show ?thesis by auto
    next
      assume "q \<noteq> pid" "q' = pid"
      with a old [of q info] new [of info'] show ?thesis by auto
    next
      assume "q \<noteq> pid" "q' \<noteq> pid"
      with a gate_inv_inj [OF assms, of q info q' info' c] show ?thesis by simp
    qed simp
  next
    fix c assume "c \<in> set (closed ?p')"
    then show "c < next_chan ?p'" using gate_inv_closed [OF assms, of c] by auto
  next
    show "distinct (closed ?p')" using gate_inv_distinct [OF assms] by simp
  qed
  then show ?thesis by (simp add: EnsurePolling_fresh [OF None])
qed

lemma gate_inv_OnInitialSyncComplete:
  assumes "gate_inv p"
  shows "\<exists>p'. OnInitialSyncComplete payload p = Inr p' \<and> gate_inv p'"
proof -
  define pid where "pid = PollerID (isc_UserID payload) (isc_DeviceID payload)"
  show ?thesis
  proof (cases "pendingPolls p pid")
    case None
    let ?p' = "p\<lparr>pendingPolls := (pendingPolls p)(pid \<mapsto> \<lparr>pi_done = True, pi_ch = None\<rparr>)\<rparr>"
    have "gate_inv ?p'"
    proof (rule gate_invI)
      fix q info assume "pendingPolls ?p' q = Some info" "pi_done info"
      then show "pi_ch info = None"
        using gate_inv_done [OF assms, of q info] by (auto split: if_splits)
    next
      fix q info assume a: "pendingPolls ?p' q = Some info" "\<not> pi_done info"
      then have "pendingPolls p q = Some info" by (auto split: if_splits)
      from gate_inv_pending [OF assms this a(2)]
      show "\<exists>c. pi_ch info = Some c \<and> c < next_chan ?p' \<and> c \<notin> set (closed ?p')" by simp
    next
      fix q q' info info' c
      assume a: "pendingPolls ?p' q = Some info" "pendingPolls ?p' q' = Some info'"
        "pi_ch info = Some c" "pi_ch info' = Some c"
      then have "pendingPolls p q = Some info" "pendingPolls p q' = Some info'"
        by (auto split: if_splits)
      from gate_inv_inj [OF assms this a(3,4)] show "q = q'" .
    next
      fix c assume "c \<in> set (closed ?p')"
      then show "c < next_chan ?p'" using gate_inv_closed [OF assms, of c] by auto
    next
      show "distinct (closed ?p')" using gate_inv_distinct [OF assms] by simp
    qed
    moreover have "OnInitialSyncComplete payload p = Inr ?p'"
      using None by (simp add: OnInitialSyncComplete_def pid_def Let_def)
    ultimately show ?thesis by blast
  next
    case (Some pending)
    show ?thesis
    proof (cases "pi_done pending")
      case True
      then have "OnInitialSyncComplete payload p = Inr p"
        using Some by (simp add: OnInitialSyncComplete_def pid_def Let_def)
      then show ?thesis using assms by simp
    next
      case False
      from gate_inv_pending [OF assms Some False] obtain c where
        c: "pi_ch pending = Some c" "c < next_chan p" "c \<notin> set (closed p)" by blast
      let ?p' = "p\<lparr>pendingPolls := (pendingPolls p)(pid \<mapsto> pending\<lparr>pi_done := True, pi_ch := None\<rparr>),
                   closed := c # closed p\<rparr>"
      have run: "OnInitialSyncComplete payload p = Inr ?p'"
        using Some False c by (simp add: OnInitialSyncComplete_def pid_def Let_def close_chan_def)
      have "gate_inv ?p'"
      proof (rule gate_invI)
        fix q info assume "pendingPolls ?p' q = Some info" "pi_done info"
        then show "pi_ch info = None"
          using gate_inv_done [OF assms, of q info] by (auto split: if_splits)
      next
        fix q info assume a: "pendingPolls ?p' q = Some info" "\<not> pi_done info"
        then have q: "q \<noteq> pid" "pendingPolls p q = Some info" by (auto split: if_splits)
        from gate_inv_pending [OF assms q(2) a(2)] obtain d where
          d: "pi_ch info = Some d" "d < next_chan p" "d \<notin> set (closed p)" by blast
        have "d \<noteq> c" using gate_inv_inj [OF assms q(2) Some d(1)] c(1) q(1) by auto
        with d show "\<exists>c. pi_ch info = Some c \<and> c < next_chan ?p' \<and> c \<notin> set (closed ?p')" by simp
      next
        fix q q' info info' d
        assume a: "pendingPolls ?p' q = Some info" "pendingPolls ?p' q' = Some info'"
          "pi_ch info = Some d" "pi_ch info' = Some d"
        then have "pendingPolls p q = Some info" "pendingPolls p q' = Some info'"
          by (auto split: if_splits)
        from gate_inv_inj [OF assms this a(3,4)] show "q = q'" .
      next
        fix d assume "d \<in> set (closed ?p')"
        then show "d < next_chan ?p'" using gate_inv_closed [OF assms, of d] c by auto
      next
        show "distinct (closed ?p')" using gate_inv_distinct [OF assms] c by simp
      qed
      with run show ?thesis by blast
    qed
  qed
qed

lemma gate_inv_OnExpiredToken:
  assumes "gate_inv p"
  shows "\<exists>p'. OnExpiredToken payload p = Inr p' \<and> gate_inv p'"
proof -
  define pid where "pid = PollerID (et_UserID payload) (et_DeviceID payload)"
  show ?thesis
  proof (cases "pendingPolls p pid")
    case None
    then have "OnExpiredToken payload p = Inr p"
      by (simp add: OnExpiredToken_def pid_def Let_def)
    then show ?thesis using assms by simp
  next
    case (Some pending)
    define cl where "cl = (case pi_ch pending of None \<Rightarrow> closed p | Some c \<Rightarrow> c # closed p)"
    let ?p' = "p\<lparr>closed := cl, pendingPolls := (pendingPolls p)(pid := None)\<rparr>"
    have open_ch: "c \<notin> set (closed p) \<and> c < next_chan p" if "pi_ch pending = Some c" for c
      using gate_inv_chan_bound [OF assms Some that] by simp
    have run: "OnExpiredToken payload p = Inr ?p'"
    proof (cases "pi_ch pending")
      case None
      then show ?thesis using Some
        by (simp add: OnExpiredToken_def pid_def [symmetric] Let_def cl_def)
    next
      case (Some c)
      with open_ch [OF Some] \<open>pendingPolls p pid = Some pending\<close> show ?thesis
        by (simp add: OnExpiredToken_def pid_def [symmetric] Let_def cl_def close_chan_def)
    qed
    have cl_set: "set cl \<subseteq> set (closed p) \<union> {c. pi_ch pending = Some c}"
      by (auto simp: cl_def split: option.splits)
    have "gate_inv ?p'"
    proof (rule gate_invI)
      fix q info assume "pendingPolls ?p' q = Some info" "pi_done info"
      then show "pi_ch info = None"
        using gate_inv_done [OF assms, of q info] by (auto split: if_splits)
    next
      fix q info assume a: "pendingPolls ?p' q = Some info" "\<not> pi_done info"
      then have q: "q \<noteq> pid" "pendingPolls p q = Some info" by (auto split: if_splits)
      from gate_inv_pending [OF assms q(2) a(2)] obtain d where
        d: "pi_ch info = Some d" "d < next_chan p" "d \<notin> set (closed p)" by blast
      have "pi_ch pending \<noteq> Some d" using gate_inv_inj [OF assms q(2) Some d(1)] q(1) by auto
      then have "d \<notin> set cl" using d(3) cl_set by auto
      with d show "\<exists>c. pi_ch info = Some c \<and> c < next_chan ?p' \<and> c \<notin> set (closed ?p')" by simp
    next
      fix q q' info info' d
      assume a: "pendingPolls ?p' q = Some info" "pendingPolls ?p' q' = Some info'"
        "pi_ch info = Some d" "pi_ch info' = Some d"
      then have "pendingPolls p q = Some info" "pendingPolls p q' = Some info'"
        by (auto split: if_splits)
      from gate_inv_inj [OF assms this a(3,4)] show "q = q'" .
    next
      fix d assume "d \<in> set (closed ?p')"
      then show "d < next_chan ?p'" using gate_inv_closed [OF assms, of d] cl_set open_ch by auto
    next
      show "distinct (closed ?p')" using gate_inv_distinct [OF assms] open_ch
        by (auto simp: cl_def split: option.splits)
    qed
    with run show ?thesis by blast
  qed
qed

lemma gate_inv_step:
  assumes "gate_inv p"
  shows "\<exists>p'. gate_step c p = Inr p' \<and> gate_inv p'"
proof (cases c)
  case (CallEnsurePolling pid tok)
  then show ?thesis using gate_inv_EnsurePolling [OF assms] by simp
next
  case (CallOnInitialSyncComplete payload)
  then show ?thesis using gate_inv_OnInitialSyncComplete [OF assms] by simp
next
  case (CallOnExpiredToken payload)
  then show ?thesis using gate_inv_OnExpiredToken [OF assms] by simp
qed

lemma gate_inv_run:
  "gate_inv p \<Longrightarrow> \<exists>p'. gate_run cs p = Inr p' \<and> gate_inv p'"
proof (induction cs arbitrary: p)
  case Nil
  then show ?case by simp
next
  case (Cons c cs)
  from gate_inv_step [OF Cons.prems] obtain p1 where "gate_step c p = Inr p1" "gate_inv p1" by blast
  with Cons.IH [of p1] show ?case by simp
qed


lemma publish_budget_step:
  assumes inv: "gate_inv p" and step: "gate_step c p = Inr p'"
    and ne: "c \<noteq> CallOnExpiredToken (V2ExpiredToken (UserID pid) (DeviceID pid))"
  shows "publish_budget pid p' \<le> publish_budget pid p"
proof (cases c)
  case (CallEnsurePolling q tok)
  show ?thesis
  proof (cases "pendingPolls p q")
    case (Some info)
    with step CallEnsurePolling inv show ?thesis by (simp add: EnsurePolling_slot)
  next
    case None
    with step CallEnsurePolling have p': "p' =
      p\<lparr>pendingPolls := (pendingPolls p)(q \<mapsto> \<lparr>pi_done = False, pi_ch = Some (next_chan p)\<rparr>),
        next_chan := Suc (next_chan p),
        notified := notified p @ [V3EnsurePolling (UserID q) (DeviceID q) tok]\<rparr>"
      by (simp add: EnsurePolling_fresh)
    show ?thesis using None unfolding p' publish_budget_def published_for_def by auto
  qed
next
  case (CallOnInitialSyncComplete payload)
  with step show ?thesis
    by (auto simp: OnInitialSyncComplete_def Let_def publish_budget_def published_for_def close_chan_def
        split: option.splits if_splits)
next
  case (CallOnExpiredToken payload)
  with ne have "PollerID (et_UserID payload) (et_DeviceID payload) \<noteq> pid"
    by (cases payload) auto
  with step CallOnExpiredToken show ?thesis
    by (auto simp: OnExpiredToken_def Let_def publish_budget_def published_for_def close_chan_def
        split: option.splits if_splits sum.splits)
qed

lemma publish_budget_run:
  "gate_inv p \<Longrightarrow> gate_run cs p = Inr p' \<Longrightarrow>
   CallOnExpiredToken (V2ExpiredToken (UserID pid) (DeviceID pid)) \<notin> set cs \<Longrightarrow>
   publish_budget pid p' \<le> publish_budget pid p"
proof (induction cs arbitrary: p)
  case Nil
  then show ?case by simp
next
  case (Cons c cs)
  from gate_inv_step [OF Cons.prems(1)] obtain p1 where p1: "gate_step c p = Inr p1" "gate_inv p1" by blast
  have "publish_budget pid p1 \<le> publish_budget pid p"
    using publish_budget_step [OF Cons.prems(1) p1(1)] Cons.prems(3) by auto
  moreover have "publish_budget pid p' \<le> publish_budget pid p1"
    using Cons.IH [OF p1(2)] Cons.prems(2,3) p1(1) by simp
  ultimately show ?case by simp
qed

lemmas gate_eval = NewEnsurePoller_def EnsurePolling_def OnInitialSyncComplete_def OnExpiredToken_def
     pending_at_def zero_pendingInfo_def close_chan_def Let_def

lemma all_released_New: "all_released NewEnsurePoller"
  by (simp add: all_released_def NewEnsurePoller_def)

lemma all_releasedD:
  "all_released p \<Longrightarrow> c < next_chan p \<Longrightarrow> c \<notin> set (closed p) \<Longrightarrow>
   \<exists>pid info. pendingPolls p pid = Some info \<and> \<not> pi_done info \<and> pi_ch info = Some c"
  unfolding all_released_def by blast

lemma all_released_EnsurePolling:
  assumes inv: "gate_inv p" and rel: "all_released p"
  shows "all_released (fst (EnsurePolling pid tok p))"
proof (cases "pendingPolls p pid")
  case (Some info)
  then show ?thesis using rel by (simp add: EnsurePolling_slot [OF inv])
next
  case None
  show ?thesis
    unfolding EnsurePolling_fresh [OF None] fst_conv all_released_def
  proof (intro allI impI)
    fix c
    assume "c < next_chan (p\<lparr>pendingPolls := (pendingPolls p)(pid \<mapsto> \<lparr>pi_done = False, pi_ch = Some (next_chan p)\<rparr>),
        next_chan := Suc (next_chan p),
        notified := notified p @ [V3EnsurePolling (UserID pid) (DeviceID pid) tok]\<rparr>)"
    then have c: "c < next_chan p \<or> c = next_chan p" by auto
    let ?p' = "p\<lparr>pendingPolls := (pendingPolls p)(pid \<mapsto> \<lparr>pi_done = False, pi_ch = Some (next_chan p)\<rparr>),
        next_chan := Suc (next_chan p),
        notified := notified p @ [V3EnsurePolling (UserID pid) (DeviceID pid) tok]\<rparr>"
    show "c \<in> set (closed ?p') \<or>
       (\<exists>q info. pendingPolls ?p' q = Some info \<and> \<not> pi_done info \<and> pi_ch info = Some c)"
    proof (cases "c = next_chan p")
      case True
      then have "pendingPolls ?p' pid = Some \<lparr>pi_done = False, pi_ch = Some c\<rparr>" by simp
      then show ?thesis by (intro disjI2 exI [of _ pid]) simp
    next
      case False
      with c have lt: "c < next_chan p" by simp
      show ?thesis
      proof (cases "c \<in> set (closed p)")
        case True then show ?thesis by simp
      next
        case False
        from all_releasedD [OF rel lt False] obtain q info where
          q: "pendingPolls p q = Some info" "\<not> pi_done info" "pi_ch info = Some c" by blast
        with None have "q \<noteq> pid" by auto
        with q have "pendingPolls ?p' q = Some info" by simp
        with q show ?thesis by blast
      qed
    qed
  qed
qed

lemma all_released_close:
  assumes rel: "all_released p" and slot: "pendingPolls p pid = Some pending"
    and upd: "pendingPolls p' = (pendingPolls p)(pid := new)"
    and cl: "set (closed p') = set (closed p) \<union> {c. pi_ch pending = Some c}"
    and nx: "next_chan p' = next_chan p"
  shows "all_released p'"
  unfolding all_released_def
proof (intro allI impI)
  fix c assume "c < next_chan p'"
  then have lt: "c < next_chan p" using nx by simp
  show "c \<in> set (closed p') \<or>
       (\<exists>q info. pendingPolls p' q = Some info \<and> \<not> pi_done info \<and> pi_ch info = Some c)"
  proof (cases "c \<in> set (closed p')")
    case True then show ?thesis by simp
  next
    case False
    with cl have nc: "c \<notin> set (closed p)" and np: "pi_ch pending \<noteq> Some c" by auto
    from all_releasedD [OF rel lt nc] obtain q info where
      q: "pendingPolls p q = Some info" "\<not> pi_done info" "pi_ch info = Some c" by blast
    with slot np have "q \<noteq> pid" by auto
    with q upd have "pendingPolls p' q = Some info" by simp
    with q show ?thesis by blast
  qed
qed

lemma all_released_OnInitialSyncComplete:
  assumes rel: "all_released p" and step: "OnInitialSyncComplete payload p = Inr p'"
  shows "all_released p'"
proof -
  define pid where "pid = PollerID (isc_UserID payload) (isc_DeviceID payload)"
  show ?thesis
  proof (cases "pendingPolls p pid")
    case None
    with step have p': "p' = p\<lparr>pendingPolls := (pendingPolls p)(pid \<mapsto> \<lparr>pi_done = True, pi_ch = None\<rparr>)\<rparr>"
      by (simp add: OnInitialSyncComplete_def pid_def Let_def)
    show ?thesis unfolding all_released_def
    proof (intro allI impI)
      fix c assume "c < next_chan p'"
      then have lt: "c < next_chan p" using p' by simp
      show "c \<in> set (closed p') \<or>
       (\<exists>q info. pendingPolls p' q = Some info \<and> \<not> pi_done info \<and> pi_ch info = Some c)"
      proof (cases "c \<in> set (closed p)")
        case True then show ?thesis using p' by simp
      next
        case False
        from all_releasedD [OF rel lt False] obtain q info where
          q: "pendingPolls p q = Some info" "\<not> pi_done info" "pi_ch info = Some c" by blast
        with None have "q \<noteq> pid" by auto
        with q p' have "pendingPolls p' q = Some info" by simp
        with q show ?thesis by blast
      qed
    qed
  next
    case (Some pending)
    show ?thesis
    proof (cases "pi_done pending")
      case True
      with step Some have "p' = p" by (simp add: OnInitialSyncComplete_def pid_def Let_def)
      with rel show ?thesis by simp
    next
      case False
      with step Some obtain c0 where c0: "pi_ch pending = Some c0"
        and p': "p' = p\<lparr>pendingPolls := (pendingPolls p)(pid \<mapsto> pending\<lparr>pi_done := True, pi_ch := None\<rparr>),
                       closed := c0 # closed p\<rparr>"
        by (auto simp: OnInitialSyncComplete_def pid_def Let_def close_chan_def
            split: option.splits if_splits)
      show ?thesis
        by (rule all_released_close [OF rel Some, of p' "Some (pending\<lparr>pi_done := True, pi_ch := None\<rparr>)"])
           (auto simp: p' c0)
    qed
  qed
qed

lemma all_released_OnExpiredToken:
  assumes rel: "all_released p" and step: "OnExpiredToken payload p = Inr p'"
  shows "all_released p'"
proof -
  define pid where "pid = PollerID (et_UserID payload) (et_DeviceID payload)"
  show ?thesis
  proof (cases "pendingPolls p pid")
    case None
    with step have "p' = p" by (simp add: OnExpiredToken_def pid_def Let_def)
    with rel show ?thesis by simp
  next
    case (Some pending)
    show ?thesis
    proof (cases "pi_ch pending")
      case None
      with step Some have p': "p' = p\<lparr>pendingPolls := (pendingPolls p)(pid := None)\<rparr>"
        by (simp add: OnExpiredToken_def pid_def [symmetric] Let_def)
      show ?thesis
        by (rule all_released_close [OF rel Some, of p' None]) (auto simp: p' None)
    next
      case ch: (Some c0)
      with step Some have p': "p' = p\<lparr>closed := c0 # closed p, pendingPolls := (pendingPolls p)(pid := None)\<rparr>"
        by (auto simp: OnExpiredToken_def pid_def [symmetric] Let_def close_chan_def split: if_splits)
      show ?thesis
        by (rule all_released_close [OF rel Some, of p' None]) (auto simp: p' ch)
    qed
  qed
qed

lemma all_released_run:
  "gate_inv p \<Longrightarrow> all_released p \<Longrightarrow> gate_run cs p = Inr p' \<Longrightarrow> all_released p'"
proof (induction cs arbitrary: p)
  case Nil
  then show ?case by simp
next
  case (Cons c cs)
  from gate_inv_step [OF Cons.prems(1)] obtain p1 where p1: "gate_step c p = Inr p1" "gate_inv p1" by blast
  have "all_released p1"
  proof (cases c)
    case (CallEnsurePolling pid tok)
    with p1(1) all_released_EnsurePolling [OF Cons.prems(1,2)] show ?thesis by auto
  next
    case (CallOnInitialSyncComplete payload)
    with p1(1) all_released_OnInitialSyncComplete [OF Cons.prems(2)] show ?thesis by auto
  next
    case (CallOnExpiredToken payload)
    with p1(1) all_released_OnExpiredToken [OF Cons.prems(2)] show ?thesis by auto
  qed
  with Cons.IH [OF p1(2)] Cons.prems(3) p1(1) show ?case by simp
qed

text \<open>
  Claim C1. Every finite sequence of calls of \<^verbatim>\<open>EnsurePolling\<close>, \<^verbatim>\<open>OnInitialSyncComplete\<close>
  and \<^verbatim>\<open>OnExpiredToken\<close>, run from the empty gate, ends without a panic (so \<^verbatim>\<open>close\<close>
  never meets a closed or nil channel); in the state reached every slot whose \<^verbatim>\<open>done\<close> is
  true has a nil channel, every channel made is closed unless a slot that is not done holds
  it (so the signal of a done slot was released), and no channel occurs twice among the
  closed ones.
\<close>

theorem gate_done_released_no_double_close:
  "\<exists>p. gate_run calls NewEnsurePoller = Inr p \<and>
       (\<forall>pid info. pendingPolls p pid = Some info \<and> pi_done info \<longrightarrow> pi_ch info = None) \<and>
       (\<forall>c < next_chan p. c \<in> set (closed p) \<or>
          (\<exists>pid info. pendingPolls p pid = Some info \<and> \<not> pi_done info \<and> pi_ch info = Some c)) \<and>
       distinct (closed p)"
proof -
  from gate_inv_run [OF gate_inv_New] obtain p where
    p: "gate_run calls NewEnsurePoller = Inr p" "gate_inv p" by blast
  have "\<forall>pid info. pendingPolls p pid = Some info \<and> pi_done info \<longrightarrow> pi_ch info = None"
    using gate_inv_done [OF p(2)] by blast
  moreover have "\<forall>c < next_chan p. c \<in> set (closed p) \<or>
          (\<exists>pid info. pendingPolls p pid = Some info \<and> \<not> pi_done info \<and> pi_ch info = Some c)"
    using all_released_run [OF gate_inv_New all_released_New p(1)] by (simp add: all_released_def)
  ultimately show ?thesis using p(1) gate_inv_distinct [OF p(2)] by blast
qed

theorem gate_done_released_no_double_close_witness:
  "\<exists>p info. gate_run
        [CallEnsurePolling (PollerID ''@alice:hs'' ''DEV1'') ''hash'',
         CallEnsurePolling (PollerID ''@alice:hs'' ''DEV1'') ''hash'',
         CallOnInitialSyncComplete (V2InitialSyncComplete ''@alice:hs'' ''DEV1''),
         CallOnInitialSyncComplete (V2InitialSyncComplete ''@alice:hs'' ''DEV1''),
         CallEnsurePolling (PollerID ''@bob:hs'' ''DEV2'') ''hash2'',
         CallOnExpiredToken (V2ExpiredToken ''@bob:hs'' ''DEV2'')] NewEnsurePoller = Inr p \<and>
      pendingPolls p (PollerID ''@alice:hs'' ''DEV1'') = Some info \<and> pi_done info \<and>
      pi_ch info = None \<and> 0 < next_chan p \<and> 0 \<in> set (closed p) \<and>
      closed p = [1, 0] \<and> distinct (closed p)"
proof -
  let ?calls = "[CallEnsurePolling (PollerID ''@alice:hs'' ''DEV1'') ''hash'',
         CallEnsurePolling (PollerID ''@alice:hs'' ''DEV1'') ''hash'',
         CallOnInitialSyncComplete (V2InitialSyncComplete ''@alice:hs'' ''DEV1''),
         CallOnInitialSyncComplete (V2InitialSyncComplete ''@alice:hs'' ''DEV1''),
         CallEnsurePolling (PollerID ''@bob:hs'' ''DEV2'') ''hash2'',
         CallOnExpiredToken (V2ExpiredToken ''@bob:hs'' ''DEV2'')]"
  from gate_done_released_no_double_close [of ?calls] obtain p where
    p: "gate_run ?calls NewEnsurePoller = Inr p"
       "\<forall>pid info. pendingPolls p pid = Some info \<and> pi_done info \<longrightarrow> pi_ch info = None"
       "\<forall>c < next_chan p. c \<in> set (closed p) \<or>
          (\<exists>pid info. pendingPolls p pid = Some info \<and> \<not> pi_done info \<and> pi_ch info = Some c)"
       "distinct (closed p)" by blast
  have slot: "pendingPolls p (PollerID ''@alice:hs'' ''DEV1'') = Some \<lparr>pi_done = True, pi_ch = None\<rparr>"
    and cl: "closed p = [1, 0]" and nx: "next_chan p = 2"
    and none: "\<And>pid info. pendingPolls p pid = Some info \<Longrightarrow> pi_done info"
    using p(1) by (auto simp: gate_eval split: if_splits)
  from p(2) slot have ch: "pi_ch \<lparr>pi_done = True, pi_ch = None\<rparr> = None" by simp
  from p(3) nx none have rel: "0 \<in> set (closed p)" by fastforce
  from p(1,4) slot cl nx ch rel show ?thesis by auto
qed

text \<open>
  Claim C2. In every state the gate reaches, \<^verbatim>\<open>EnsurePolling\<close> publishes a
  \<^verbatim>\<open>V3EnsurePolling\<close> payload exactly when the poller has no slot, and then creates the slot
  with a fresh channel and blocks on it; with a slot that is done it returns at once and
  leaves the state as it is; with a pending slot it blocks on the slot's channel and leaves
  the state as it is. Hence over any further calls that do not expire the poller's token,
  at most one more payload is published for the poller, and none if it has a slot.
\<close>

theorem EnsurePolling_publishes_only_for_fresh_slot:
  assumes "gate_run calls NewEnsurePoller = Inr p"
  shows "(pendingPolls p pid = None \<longrightarrow>
            EnsurePolling pid tokenHash p =
              (p\<lparr>pendingPolls := (pendingPolls p)(pid \<mapsto> \<lparr>pi_done = False, pi_ch = Some (next_chan p)\<rparr>),
                 next_chan := Suc (next_chan p),
                 notified := notified p @ [V3EnsurePolling (UserID pid) (DeviceID pid) tokenHash]\<rparr>,
               BlocksOn (next_chan p))) \<and>
         (\<forall>info. pendingPolls p pid = Some info \<and> pi_done info \<longrightarrow>
            EnsurePolling pid tokenHash p = (p, ReturnsAtOnce)) \<and>
         (\<forall>info. pendingPolls p pid = Some info \<and> \<not> pi_done info \<longrightarrow>
            (\<exists>ch. pi_ch info = Some ch \<and> EnsurePolling pid tokenHash p = (p, BlocksOn ch))) \<and>
         (\<forall>calls' p'. gate_run calls' p = Inr p' \<and>
            CallOnExpiredToken (V2ExpiredToken (UserID pid) (DeviceID pid)) \<notin> set calls' \<longrightarrow>
            published_for pid p' \<le> published_for pid p + (if pendingPolls p pid = None then 1 else 0))"
proof -
  from gate_inv_run [OF gate_inv_New, of calls] assms have inv: "gate_inv p" by auto
  have 1: "pendingPolls p pid = None \<longrightarrow>
            EnsurePolling pid tokenHash p =
              (p\<lparr>pendingPolls := (pendingPolls p)(pid \<mapsto> \<lparr>pi_done = False, pi_ch = Some (next_chan p)\<rparr>),
                 next_chan := Suc (next_chan p),
                 notified := notified p @ [V3EnsurePolling (UserID pid) (DeviceID pid) tokenHash]\<rparr>,
               BlocksOn (next_chan p))"
    by (simp add: EnsurePolling_fresh)
  have 2: "\<forall>info. pendingPolls p pid = Some info \<and> pi_done info \<longrightarrow>
            EnsurePolling pid tokenHash p = (p, ReturnsAtOnce)"
    by (simp add: EnsurePolling_slot [OF inv])
  have 3: "\<forall>info. pendingPolls p pid = Some info \<and> \<not> pi_done info \<longrightarrow>
            (\<exists>ch. pi_ch info = Some ch \<and> EnsurePolling pid tokenHash p = (p, BlocksOn ch))"
  proof (intro allI impI)
    fix info assume a: "pendingPolls p pid = Some info \<and> \<not> pi_done info"
    with gate_inv_pending [OF inv, of pid info] obtain c where "pi_ch info = Some c" by blast
    with a show "\<exists>ch. pi_ch info = Some ch \<and> EnsurePolling pid tokenHash p = (p, BlocksOn ch)"
      by (simp add: EnsurePolling_slot [OF inv])
  qed
  have 4: "\<forall>calls' p'. gate_run calls' p = Inr p' \<and>
            CallOnExpiredToken (V2ExpiredToken (UserID pid) (DeviceID pid)) \<notin> set calls' \<longrightarrow>
            published_for pid p' \<le> published_for pid p + (if pendingPolls p pid = None then 1 else 0)"
  proof (intro allI impI)
    fix calls' p'
    assume a: "gate_run calls' p = Inr p' \<and>
            CallOnExpiredToken (V2ExpiredToken (UserID pid) (DeviceID pid)) \<notin> set calls'"
    from publish_budget_run [OF inv, of calls' p' pid] a
    have "publish_budget pid p' \<le> publish_budget pid p" by simp
    then show "published_for pid p' \<le> published_for pid p + (if pendingPolls p pid = None then 1 else 0)"
      by (simp add: publish_budget_def split: if_splits)
  qed
  from 1 2 3 4 show ?thesis by blast
qed

theorem EnsurePolling_publishes_only_for_fresh_slot_witness:
  "\<exists>p. gate_run
        [CallEnsurePolling (PollerID ''@alice:hs'' ''DEV1'') ''hash'',
         CallEnsurePolling (PollerID ''@carol:hs'' ''DEV3'') ''hash3'',
         CallOnInitialSyncComplete (V2InitialSyncComplete ''@carol:hs'' ''DEV3'')] NewEnsurePoller = Inr p \<and>
      pendingPolls p (PollerID ''@bob:hs'' ''DEV2'') = None \<and>
      snd (EnsurePolling (PollerID ''@bob:hs'' ''DEV2'') ''hash2'' p) = BlocksOn 2 \<and>
      notified (fst (EnsurePolling (PollerID ''@bob:hs'' ''DEV2'') ''hash2'' p)) =
        notified p @ [V3EnsurePolling ''@bob:hs'' ''DEV2'' ''hash2''] \<and>
      pendingPolls p (PollerID ''@carol:hs'' ''DEV3'') = Some \<lparr>pi_done = True, pi_ch = None\<rparr> \<and>
      EnsurePolling (PollerID ''@carol:hs'' ''DEV3'') ''hash3'' p = (p, ReturnsAtOnce) \<and>
      pendingPolls p (PollerID ''@alice:hs'' ''DEV1'') = Some \<lparr>pi_done = False, pi_ch = Some 0\<rparr> \<and>
      EnsurePolling (PollerID ''@alice:hs'' ''DEV1'') ''hash'' p = (p, BlocksOn 0) \<and>
      gate_run [CallEnsurePolling (PollerID ''@alice:hs'' ''DEV1'') ''again''] p = Inr p \<and>
      CallOnExpiredToken (V2ExpiredToken ''@alice:hs'' ''DEV1'') \<notin>
        set [CallEnsurePolling (PollerID ''@alice:hs'' ''DEV1'') ''again''] \<and>
      published_for (PollerID ''@alice:hs'' ''DEV1'') p = 1"
proof -
  let ?calls = "[CallEnsurePolling (PollerID ''@alice:hs'' ''DEV1'') ''hash'',
         CallEnsurePolling (PollerID ''@carol:hs'' ''DEV3'') ''hash3'',
         CallOnInitialSyncComplete (V2InitialSyncComplete ''@carol:hs'' ''DEV3'')]"
  let ?a = "PollerID ''@alice:hs'' ''DEV1''" and ?b = "PollerID ''@bob:hs'' ''DEV2''"
    and ?c = "PollerID ''@carol:hs'' ''DEV3''"
  obtain p where run: "gate_run ?calls NewEnsurePoller = Inr p"
    using gate_inv_run [OF gate_inv_New, of ?calls] by blast
  have sb: "pendingPolls p ?b = None"
    and sc: "pendingPolls p ?c = Some \<lparr>pi_done = True, pi_ch = None\<rparr>"
    and sa: "pendingPolls p ?a = Some \<lparr>pi_done = False, pi_ch = Some 0\<rparr>"
    and nx: "next_chan p = 2"
    and pa: "published_for ?a p = 1"
    using run by (auto simp: gate_eval published_for_def)
  note thm_b = EnsurePolling_publishes_only_for_fresh_slot [OF run, of ?b "''hash2''"]
  note thm_c = EnsurePolling_publishes_only_for_fresh_slot [OF run, of ?c "''hash3''"]
  note thm_a = EnsurePolling_publishes_only_for_fresh_slot [OF run, of ?a "''hash''"]
  note thm_a' = EnsurePolling_publishes_only_for_fresh_slot [OF run, of ?a "''again''"]
  have 1: "snd (EnsurePolling ?b ''hash2'' p) = BlocksOn 2"
    "notified (fst (EnsurePolling ?b ''hash2'' p)) = notified p @ [V3EnsurePolling ''@bob:hs'' ''DEV2'' ''hash2'']"
    using thm_b sb nx by simp_all
  have 2: "EnsurePolling ?c ''hash3'' p = (p, ReturnsAtOnce)"
    using thm_c sc by simp
  have 3: "EnsurePolling ?a ''hash'' p = (p, BlocksOn 0)"
    using thm_a sa by simp
  have "EnsurePolling ?a ''again'' p = (p, BlocksOn 0)"
    using thm_a' sa by simp
  then have 4: "gate_run [CallEnsurePolling ?a ''again''] p = Inr p" by simp
  have 5: "published_for ?a p \<le> published_for ?a p + (if pendingPolls p ?a = None then 1 else 0)"
    using thm_a 4 by simp
  show ?thesis using run sb sc sa 1 2 3 4 pa by (intro exI [of _ p]) simp
qed


section \<open>Proofs: the global cache\<close>

lemma rename_hero_ids: "map ID (fst (rename_hero u d hs)) = map ID hs"
  by (induction hs) (auto split: prod.splits)

lemma rename_hero_found: "snd (rename_hero u d hs) \<longleftrightarrow> u \<in> set (map ID hs)"
  by (induction hs) (auto split: prod.splits)

lemma enter_hero_ids:
  "map ID (Heroes (enter_hero u d m)) =
     (if u \<in> set (map ID (Heroes m)) then map ID (Heroes m) else map ID (Heroes m) @ [u])"
proof (cases "rename_hero u d (Heroes m)")
  case (Pair hs found)
  with rename_hero_ids [of u d "Heroes m"] rename_hero_found [of u d "Heroes m"]
  show ?thesis by (auto simp: enter_hero_def)
qed

lemma on_membership_change_ids:
  "map ID (Heroes (fst (on_membership_change ed u (m, ivs)))) =
     (if membership_of ed = ''leave'' \<or> membership_of ed = ''ban''
      then filter (\<lambda>x. x \<noteq> u) (map ID (Heroes m)) else map ID (Heroes m))"
  by (simp add: on_membership_change_def Let_def RemoveHero_def membership_of_def filter_map comp_def)

text \<open>The ids of the heroes after the member branch, as a function of the ids before.\<close>

lemma on_member_ids:
  "map ID (Heroes (fst (on_member ed u (m, ivs)))) =
     (let ids = (if IsMembershipChange (Some (ed_Event ed)) \<and>
                    (membership_of ed = ''leave'' \<or> membership_of ed = ''ban'')
                 then filter (\<lambda>x. x \<noteq> u) (map ID (Heroes m)) else map ID (Heroes m))
      in if length ids < 6 \<and> (membership_of ed = ''join'' \<or> membership_of ed = ''invite'') \<and> u \<notin> set ids
         then ids @ [u] else ids)"
proof -
  obtain m1 iv1 where st: "(if IsMembershipChange (Some (ed_Event ed))
        then on_membership_change ed u (m, ivs) else (m, ivs)) = (m1, iv1)"
    by (cases "(if IsMembershipChange (Some (ed_Event ed))
        then on_membership_change ed u (m, ivs) else (m, ivs))") 
  have ids1: "map ID (Heroes m1) = (if IsMembershipChange (Some (ed_Event ed)) \<and>
                    (membership_of ed = ''leave'' \<or> membership_of ed = ''ban'')
                 then filter (\<lambda>x. x \<noteq> u) (map ID (Heroes m)) else map ID (Heroes m))"
    using st on_membership_change_ids [of ed u m ivs] by (auto split: if_splits)
  have len: "length (Heroes m1) = length (map ID (Heroes m1))" by simp
  have fin: "fst (on_member ed u (m, ivs)) =
      (if length (Heroes m1) < 6 \<and> (membership_of ed = ''join'' \<or> membership_of ed = ''invite'')
       then enter_hero u (gjson_Str (gjson_Get (ed_Content ed) [''displayname''])) m1 else m1)"
    using st by (simp add: on_member_def Let_def membership_of_def)
  show ?thesis
    unfolding fin Let_def ids1 [symmetric]
    by (simp add: enter_hero_ids)
qed

lemma on_event_type_ids:
  "map ID (Heroes (fst (on_event_type ed (m, ivs)))) =
     (case ed_StateKey ed of
        Some u \<Rightarrow> if ed_EventType ed = ''m.room.member''
                  then map ID (Heroes (fst (on_member ed u (m, ivs)))) else map ID (Heroes m)
      | None \<Rightarrow> map ID (Heroes m))"
  by (simp add: on_event_type_def Let_def split: option.splits)

lemma OnNewEvent_other_room:
  "r \<noteq> ed_RoomID ed \<Longrightarrow> roomIDToMetadata (OnNewEvent ed c) r = roomIDToMetadata c r"
  by (simp add: OnNewEvent_def Let_def split: prod.splits)

lemma OnNewEvent_room:
  "roomIDToMetadata (OnNewEvent ed c) (ed_RoomID ed) =
     Some ((fst (on_event_type ed (metadata_or_fresh c (ed_RoomID ed), InvitesTable c)))
             \<lparr>LastMessageTimestamp := ed_Timestamp ed\<rparr>)"
  by (simp add: OnNewEvent_def Let_def split: prod.splits)

lemma hero_ids_OnNewEvent:
  "hero_ids (OnNewEvent ed c) r =
     (if ed_RoomID ed = r \<and> ed_EventType ed = ''m.room.member'' then
        (case ed_StateKey ed of
           None \<Rightarrow> hero_ids c r
         | Some u \<Rightarrow>
            (let ids = (if IsMembershipChange (Some (ed_Event ed)) \<and>
                           (membership_of ed = ''leave'' \<or> membership_of ed = ''ban'')
                        then filter (\<lambda>x. x \<noteq> u) (hero_ids c r) else hero_ids c r)
             in if length ids < 6 \<and> (membership_of ed = ''join'' \<or> membership_of ed = ''invite'') \<and> u \<notin> set ids
                then ids @ [u] else ids))
      else hero_ids c r)"
proof (cases "ed_RoomID ed = r")
  case False
  then show ?thesis
    using OnNewEvent_other_room [of r ed c] by (simp add: hero_ids_def metadata_or_fresh_def)
next
  case True
  have "hero_ids (OnNewEvent ed c) r =
      map ID (Heroes (fst (on_event_type ed (metadata_or_fresh c r, InvitesTable c))))"
    using OnNewEvent_room [of ed c] True by (simp add: hero_ids_def metadata_or_fresh_def)
  then have e: "hero_ids (OnNewEvent ed c) r =
     (case ed_StateKey ed of
        Some u \<Rightarrow> if ed_EventType ed = ''m.room.member''
                  then map ID (Heroes (fst (on_member ed u (metadata_or_fresh c r, InvitesTable c))))
                  else hero_ids c r
      | None \<Rightarrow> hero_ids c r)"
    by (simp only: on_event_type_ids hero_ids_def)
  show ?thesis
  proof (cases "ed_StateKey ed")
    case None
    with e show ?thesis by simp
  next
    case (Some u)
    show ?thesis
    proof (cases "ed_EventType ed = ''m.room.member''")
      case False
      with e Some show ?thesis by simp
    next
      case member: True
      have "hero_ids (OnNewEvent ed c) r =
          map ID (Heroes (fst (on_member ed u (metadata_or_fresh c r, InvitesTable c))))"
        using e Some member by simp
      also have "\<dots> = (let ids = (if IsMembershipChange (Some (ed_Event ed)) \<and>
                           (membership_of ed = ''leave'' \<or> membership_of ed = ''ban'')
                        then filter (\<lambda>x. x \<noteq> u) (hero_ids c r) else hero_ids c r)
             in if length ids < 6 \<and> (membership_of ed = ''join'' \<or> membership_of ed = ''invite'') \<and> u \<notin> set ids
                then ids @ [u] else ids)"
        unfolding hero_ids_def by (rule on_member_ids)
      finally show ?thesis using True Some member by (simp only: if_True simp_thms option.case)
    qed
  qed
qed

lemma hero_ids_length_step:
  assumes "length (hero_ids c r) \<le> 6"
  shows "length (hero_ids (OnNewEvent ed c) r) \<le> 6"
proof -
  have f: "length (filter P (hero_ids c r)) \<le> 6" for P
    using assms length_filter_le [of P "hero_ids c r"] by linarith
  show ?thesis
    unfolding hero_ids_OnNewEvent Let_def using assms f
    by (auto split: option.splits)
qed

lemma hero_ids_other_step:
  assumes "\<not> is_member_event_of r u ed"
  shows "u \<in> set (hero_ids (OnNewEvent ed c) r) \<longleftrightarrow> u \<in> set (hero_ids c r)"
  unfolding hero_ids_OnNewEvent Let_def using assms
  by (auto simp: is_member_event_of_def split: option.splits)

lemma hero_ids_removed_step:
  assumes "is_member_event_of r u ed"
    and "membership_of ed = ''leave'' \<or> membership_of ed = ''ban''"
    and "IsMembershipChange (Some (ed_Event ed))"
  shows "u \<notin> set (hero_ids (OnNewEvent ed c) r)"
  unfolding hero_ids_OnNewEvent Let_def using assms
  by (auto simp: is_member_event_of_def split: option.splits)

lemma OnNewEvents_snoc: "OnNewEvents (eds @ [ed]) c = OnNewEvent ed (OnNewEvents eds c)"
  by (induction eds arbitrary: c) simp_all

lemma latest_member_event_snoc:
  "latest_member_event r u (eds @ [ed]) =
     (if is_member_event_of r u ed then Some ed else latest_member_event r u eds)"
  by (induction eds) (auto split: option.splits)

lemma hero_ids_length_run:
  "length (hero_ids c r) \<le> 6 \<Longrightarrow> length (hero_ids (OnNewEvents eds c) r) \<le> 6"
  by (induction eds arbitrary: c) (simp_all add: hero_ids_length_step)

lemma leaver_not_hero:
  "latest_member_event r u eds = Some ed \<Longrightarrow>
   membership_of ed = ''leave'' \<or> membership_of ed = ''ban'' \<Longrightarrow>
   IsMembershipChange (Some (ed_Event ed)) \<Longrightarrow>
   u \<notin> set (hero_ids (OnNewEvents eds c) r)"
proof (induction eds rule: rev_induct)
  case Nil
  then show ?case by simp
next
  case (snoc e eds)
  show ?case
  proof (cases "is_member_event_of r u e")
    case True
    with snoc.prems(1) have "e = ed" by (simp add: latest_member_event_snoc)
    with True snoc.prems(2,3) show ?thesis
      by (simp add: OnNewEvents_snoc hero_ids_removed_step)
  next
    case False
    with snoc.prems(1) have "latest_member_event r u eds = Some ed"
      by (simp add: latest_member_event_snoc)
    from snoc.IH [OF this snoc.prems(2,3)] False show ?thesis
      by (simp add: OnNewEvents_snoc hero_ids_other_step)
  qed
qed

lemma hero_ids_kept_step:
  assumes "membership_of ed = ''leave'' \<or> membership_of ed = ''ban''"
    and "\<not> IsMembershipChange (Some (ed_Event ed))"
  shows "hero_ids (OnNewEvent ed c) r = hero_ids c r"
proof -
  have m: "membership_of ed \<noteq> ''join''" "membership_of ed \<noteq> ''invite''"
    using assms(1) by auto
  show ?thesis
    unfolding hero_ids_OnNewEvent Let_def using assms(2) m
    by (simp split: option.splits)
qed

text \<open>
  Claim C4, as the code has it. From a cache whose room has at most six heroes, after any
  sequence of events the room still has at most six heroes, and no user is among them whose
  latest \<^verbatim>\<open>m.room.member\<close> event of the sequence is a leave or a ban that is a membership
  change. An event with the membership leave or ban that is no membership change leaves
  the heroes as they are.
\<close>

theorem heroes_bounded_and_changed_leavers_removed:
  assumes "length (hero_ids c roomID) \<le> 6"
  shows "length (hero_ids (OnNewEvents eds c) roomID) \<le> 6 \<and>
         (\<forall>userID ed. latest_member_event roomID userID eds = Some ed \<and>
             (membership_of ed = ''leave'' \<or> membership_of ed = ''ban'') \<and>
             IsMembershipChange (Some (ed_Event ed)) \<longrightarrow>
             userID \<notin> set (hero_ids (OnNewEvents eds c) roomID)) \<and>
         (\<forall>ed c'. (membership_of ed = ''leave'' \<or> membership_of ed = ''ban'') \<and>
             \<not> IsMembershipChange (Some (ed_Event ed)) \<longrightarrow>
             hero_ids (OnNewEvent ed c') roomID = hero_ids c' roomID)"
  using hero_ids_length_run [OF assms] leaver_not_hero hero_ids_kept_step by blast

lemmas cache_eval = OnNewEvent_def on_event_type_def on_member_def on_membership_change_def
  enter_hero_def RemoveHero_def RemoveInvite_def IsMembershipChange_def metadata_or_fresh_def
  fresh_RoomMetadata_def zero_RoomMetadata_def NewGlobalCache_def hero_ids_def membership_of_def
  is_member_event_of_def member_event_def Let_def

text \<open>
  Claim C4 as stated fails: a join followed by a leave whose previous membership is given
  as leave, so that the leave is no membership change, keeps the user among the heroes.
\<close>

theorem heroes_leaver_kept_counterexample:
  "length (hero_ids (NewGlobalCache {}) ''!r:hs'') \<le> 6 \<and>
   latest_member_event ''!r:hs'' ''@alice:hs''
     [member_event ''!r:hs'' ''@alice:hs'' ''join'' None,
      member_event ''!r:hs'' ''@alice:hs'' ''leave'' (Some ''leave'')]
     = Some (member_event ''!r:hs'' ''@alice:hs'' ''leave'' (Some ''leave'')) \<and>
   membership_of (member_event ''!r:hs'' ''@alice:hs'' ''leave'' (Some ''leave'')) = ''leave'' \<and>
   ''@alice:hs'' \<in> set (hero_ids (OnNewEvents
     [member_event ''!r:hs'' ''@alice:hs'' ''join'' None,
      member_event ''!r:hs'' ''@alice:hs'' ''leave'' (Some ''leave'')] (NewGlobalCache {})) ''!r:hs'')"
  by (simp add: cache_eval)

theorem heroes_bounded_and_changed_leavers_removed_witness:
  "length (hero_ids (NewGlobalCache {}) ''!r:hs'') \<le> 6 \<and>
   latest_member_event ''!r:hs'' ''@alice:hs''
     [member_event ''!r:hs'' ''@alice:hs'' ''join'' None,
      member_event ''!r:hs'' ''@bob:hs'' ''join'' None,
      member_event ''!r:hs'' ''@alice:hs'' ''leave'' (Some ''join'')]
     = Some (member_event ''!r:hs'' ''@alice:hs'' ''leave'' (Some ''join'')) \<and>
   membership_of (member_event ''!r:hs'' ''@alice:hs'' ''leave'' (Some ''join'')) = ''leave'' \<and>
   IsMembershipChange (Some (ed_Event (member_event ''!r:hs'' ''@alice:hs'' ''leave'' (Some ''join'')))) \<and>
   ''@alice:hs'' \<notin> set (hero_ids (OnNewEvents
     [member_event ''!r:hs'' ''@alice:hs'' ''join'' None,
      member_event ''!r:hs'' ''@bob:hs'' ''join'' None,
      member_event ''!r:hs'' ''@alice:hs'' ''leave'' (Some ''join'')] (NewGlobalCache {})) ''!r:hs'') \<and>
   hero_ids (OnNewEvents
     [member_event ''!r:hs'' ''@alice:hs'' ''join'' None,
      member_event ''!r:hs'' ''@bob:hs'' ''join'' None,
      member_event ''!r:hs'' ''@alice:hs'' ''leave'' (Some ''join'')] (NewGlobalCache {})) ''!r:hs'' = [''@bob:hs''] \<and>
   membership_of (member_event ''!r:hs'' ''@alice:hs'' ''leave'' (Some ''leave'')) = ''leave'' \<and>
   \<not> IsMembershipChange (Some (ed_Event (member_event ''!r:hs'' ''@alice:hs'' ''leave'' (Some ''leave'')))) \<and>
   hero_ids (OnNewEvent (member_event ''!r:hs'' ''@alice:hs'' ''leave'' (Some ''leave''))
               (OnNewEvent (member_event ''!r:hs'' ''@alice:hs'' ''join'' None) (NewGlobalCache {})))
      ''!r:hs'' =
     hero_ids (OnNewEvent (member_event ''!r:hs'' ''@alice:hs'' ''join'' None) (NewGlobalCache {})) ''!r:hs'' \<and>
   hero_ids (OnNewEvent (member_event ''!r:hs'' ''@alice:hs'' ''join'' None) (NewGlobalCache {})) ''!r:hs'' =
     [''@alice:hs'']"
proof -
  let ?eds = "[member_event ''!r:hs'' ''@alice:hs'' ''join'' None,
      member_event ''!r:hs'' ''@bob:hs'' ''join'' None,
      member_event ''!r:hs'' ''@alice:hs'' ''leave'' (Some ''join'')]"
  let ?ed = "member_event ''!r:hs'' ''@alice:hs'' ''leave'' (Some ''join'')"
  let ?ed' = "member_event ''!r:hs'' ''@alice:hs'' ''leave'' (Some ''leave'')"
  let ?c1 = "OnNewEvent (member_event ''!r:hs'' ''@alice:hs'' ''join'' None) (NewGlobalCache {})"
  have h: "length (hero_ids (NewGlobalCache {}) ''!r:hs'') \<le> 6" by (simp add: cache_eval)
  have l: "latest_member_event ''!r:hs'' ''@alice:hs'' ?eds = Some ?ed" by (simp add: cache_eval)
  have m: "membership_of ?ed = ''leave''" by (simp add: cache_eval)
  have i: "IsMembershipChange (Some (ed_Event ?ed))" by (simp add: cache_eval)
  have v: "hero_ids (OnNewEvents ?eds (NewGlobalCache {})) ''!r:hs'' = [''@bob:hs'']" by (simp add: cache_eval)
  have m': "membership_of ?ed' = ''leave''" by (simp add: cache_eval)
  have i': "\<not> IsMembershipChange (Some (ed_Event ?ed'))" by (simp add: cache_eval)
  have v': "hero_ids ?c1 ''!r:hs'' = [''@alice:hs'']" by (simp add: cache_eval)
  note inst = heroes_bounded_and_changed_leavers_removed [OF h, of ?eds]
  from inst l m i
  have a: "''@alice:hs'' \<notin> set (hero_ids (OnNewEvents ?eds (NewGlobalCache {})) ''!r:hs'')" by blast
  from inst m' i'
  have k: "hero_ids (OnNewEvent ?ed' ?c1) ''!r:hs'' = hero_ids ?c1 ''!r:hs''" by blast
  from h l m i v a m' i' k v' show ?thesis by blast
qed



text \<open>
  Claim C10. \<^verbatim>\<open>OnEphemeralEvent\<close> for a room without metadata stores the fresh metadata (room
  id set, no child rooms, timestamp zero), whatever the type of the event, with the typing
  event set if the type is \<^verbatim>\<open>m.typing\<close>; for a room with metadata an event of another type
  leaves the cache as it is, and an \<^verbatim>\<open>m.typing\<close> event overwrites the typing event only.
  Other rooms and the invites are never touched.
\<close>

theorem OnEphemeralEvent_frame:
  "(roomIDToMetadata c roomID = None \<longrightarrow>
      roomIDToMetadata (OnEphemeralEvent roomID ephEvent c) roomID =
        Some (if gjson_Str (gjson_Get (Some ephEvent) [''type'']) = ''m.typing''
              then (fresh_RoomMetadata roomID)\<lparr>TypingEvent := Some ephEvent\<rparr>
              else fresh_RoomMetadata roomID) \<and>
      RoomID (fresh_RoomMetadata roomID) = roomID \<and>
      ChildSpaceRooms (fresh_RoomMetadata roomID) = {} \<and>
      LastMessageTimestamp (fresh_RoomMetadata roomID) = 0) \<and>
   (\<forall>m. roomIDToMetadata c roomID = Some m \<and>
        gjson_Str (gjson_Get (Some ephEvent) [''type'']) \<noteq> ''m.typing'' \<longrightarrow>
        OnEphemeralEvent roomID ephEvent c = c) \<and>
   (\<forall>m. roomIDToMetadata c roomID = Some m \<and>
        gjson_Str (gjson_Get (Some ephEvent) [''type'']) = ''m.typing'' \<longrightarrow>
        roomIDToMetadata (OnEphemeralEvent roomID ephEvent c) roomID =
          Some (m\<lparr>TypingEvent := Some ephEvent\<rparr>)) \<and>
   (\<forall>r. r \<noteq> roomID \<longrightarrow>
        roomIDToMetadata (OnEphemeralEvent roomID ephEvent c) r = roomIDToMetadata c r) \<and>
   InvitesTable (OnEphemeralEvent roomID ephEvent c) = InvitesTable c"
proof -
  have idem: "c\<lparr>roomIDToMetadata := (roomIDToMetadata c)(roomID \<mapsto> m)\<rparr> = c"
    if "roomIDToMetadata c roomID = Some m" for m
    using that by (simp add: map_upd_triv)
  show ?thesis
    by (auto simp: OnEphemeralEvent_def Let_def metadata_or_fresh_def fresh_RoomMetadata_def
        zero_RoomMetadata_def idem)
qed

theorem OnEphemeralEvent_frame_witness:
  "roomIDToMetadata (NewGlobalCache {}) ''!r:hs'' = None \<and>
   gjson_Str (gjson_Get (Some receipt_edu) [''type'']) \<noteq> ''m.typing'' \<and>
   roomIDToMetadata (OnEphemeralEvent ''!r:hs'' receipt_edu (NewGlobalCache {})) ''!r:hs'' =
     Some (fresh_RoomMetadata ''!r:hs'') \<and>
   roomIDToMetadata cache_with_room ''!r:hs'' = Some (room_with_timestamp ''!r:hs'' 1000) \<and>
   OnEphemeralEvent ''!r:hs'' receipt_edu cache_with_room = cache_with_room \<and>
   gjson_Str (gjson_Get (Some typing_edu) [''type'']) = ''m.typing'' \<and>
   roomIDToMetadata (OnEphemeralEvent ''!r:hs'' typing_edu cache_with_room) ''!r:hs'' =
     Some ((room_with_timestamp ''!r:hs'' 1000)\<lparr>TypingEvent := Some typing_edu\<rparr>) \<and>
   ''!other:hs'' \<noteq> ''!r:hs'' \<and>
   roomIDToMetadata (OnEphemeralEvent ''!r:hs'' typing_edu cache_with_room) ''!other:hs'' = None"
proof -
  have a: "roomIDToMetadata (NewGlobalCache {}) ''!r:hs'' = None" by (simp add: NewGlobalCache_def)
  have b: "gjson_Str (gjson_Get (Some receipt_edu) [''type'']) \<noteq> ''m.typing''"
    by (simp add: receipt_edu_def)
  have c: "roomIDToMetadata cache_with_room ''!r:hs'' = Some (room_with_timestamp ''!r:hs'' 1000)"
    by (simp add: cache_with_room_def)
  have d: "gjson_Str (gjson_Get (Some typing_edu) [''type'']) = ''m.typing''"
    by (simp add: typing_edu_def)
  have e: "roomIDToMetadata cache_with_room ''!other:hs'' = None"
    by (simp add: cache_with_room_def)
  note t1 = OnEphemeralEvent_frame [of "NewGlobalCache {}" "''!r:hs''" receipt_edu]
  note t2 = OnEphemeralEvent_frame [of cache_with_room "''!r:hs''" receipt_edu]
  note t3 = OnEphemeralEvent_frame [of cache_with_room "''!r:hs''" typing_edu]
  have 1: "roomIDToMetadata (OnEphemeralEvent ''!r:hs'' receipt_edu (NewGlobalCache {})) ''!r:hs'' =
     Some (fresh_RoomMetadata ''!r:hs'')" using t1 a b by simp
  have 2: "OnEphemeralEvent ''!r:hs'' receipt_edu cache_with_room = cache_with_room"
    using t2 b c by blast
  have 3: "roomIDToMetadata (OnEphemeralEvent ''!r:hs'' typing_edu cache_with_room) ''!r:hs'' =
     Some ((room_with_timestamp ''!r:hs'' 1000)\<lparr>TypingEvent := Some typing_edu\<rparr>)"
    using t3 c d by blast
  have 4: "roomIDToMetadata (OnEphemeralEvent ''!r:hs'' typing_edu cache_with_room) ''!other:hs'' = None"
    using t3 e by simp
  from a b c d 1 2 3 4 show ?thesis by simp
qed

lemma Startup_loop_ok:
  assumes "\<forall>k \<in> set ks. RoomID (input_at entries k) \<noteq> [] \<and> 1 < LastMessageTimestamp (input_at entries k)"
  shows "Startup_loop ks entries c =
           Inr (c\<lparr>roomIDToMetadata := (\<lambda>k. if k \<in> set ks then Some (input_at entries k) else roomIDToMetadata c k)\<rparr>)"
  using assms
proof (induction ks arbitrary: c)
  case Nil
  then show ?case by simp
next
  case (Cons k ks)
  have "Startup_loop (k # ks) entries c =
      Startup_loop ks entries (c\<lparr>roomIDToMetadata := (roomIDToMetadata c)(k \<mapsto> input_at entries k)\<rparr>)"
    using Cons.prems by (simp add: Assert_def Let_def)
  also have "\<dots> = Inr (c\<lparr>roomIDToMetadata := (\<lambda>k'. if k' \<in> set (k # ks) then Some (input_at entries k')
                                else roomIDToMetadata c k')\<rparr>)"
  proof -
    have f: "(\<lambda>ka. if ka \<in> set ks then Some (input_at entries ka)
                 else roomIDToMetadata (c\<lparr>roomIDToMetadata := (roomIDToMetadata c)(k \<mapsto> input_at entries k)\<rparr>) ka) =
             (\<lambda>k'. if k' \<in> set (k # ks) then Some (input_at entries k') else roomIDToMetadata c k')"
      by (rule ext) simp
    show ?thesis using Cons.prems by (subst Cons.IH) (simp_all add: f)
  qed
  finally show ?case .
qed

text \<open>
  Claim C3, as the code has it. \<^verbatim>\<open>Startup\<close> succeeds on every input in which each entry has a
  non-empty room id and a last message timestamp greater than 1; the cache then holds the
  given entries over what it held before, so a new cache holds exactly the given entries.
\<close>

theorem Startup_succeeds_on_plausible_entries:
  assumes "\<forall>(roomID, metadata) \<in> set entries. RoomID metadata \<noteq> [] \<and> 1 < LastMessageTimestamp metadata"
  shows "Startup entries c = Inr (c\<lparr>roomIDToMetadata := roomIDToMetadata c ++ map_of entries\<rparr>) \<and>
         (\<exists>c'. Startup entries (NewGlobalCache invites) = Inr c' \<and> roomIDToMetadata c' = map_of entries)"
proof -
  have ok: "\<forall>k \<in> set (sort (map fst entries)).
      RoomID (input_at entries k) \<noteq> [] \<and> 1 < LastMessageTimestamp (input_at entries k)"
  proof
    fix k assume "k \<in> set (sort (map fst entries))"
    then have "k \<in> fst ` set entries" by simp
    then obtain m where m: "map_of entries k = Some m" 
      by (metis map_of_eq_None_iff not_None_eq)
    then have "(k, m) \<in> set entries" by (rule map_of_SomeD)
    with assms m show "RoomID (input_at entries k) \<noteq> [] \<and> 1 < LastMessageTimestamp (input_at entries k)"
      by (auto simp: input_at_def)
  qed
  have eq: "(\<lambda>k. if k \<in> set (sort (map fst entries)) then Some (input_at entries k) else f k) = f ++ map_of entries" for f
  proof
    fix k show "(if k \<in> set (sort (map fst entries)) then Some (input_at entries k) else f k) = (f ++ map_of entries) k"
    proof (cases "map_of entries k")
      case None
      then have "k \<notin> fst ` set entries" by (simp add: map_of_eq_None_iff)
      with None show ?thesis by (simp add: map_add_def)
    next
      case (Some m)
      then have "k \<in> fst ` set entries" by (metis map_of_eq_None_iff option.distinct(1))
      with Some show ?thesis by (simp add: map_add_def input_at_def)
    qed
  qed
  have 1: "Startup entries c = Inr (c\<lparr>roomIDToMetadata := roomIDToMetadata c ++ map_of entries\<rparr>)" for c
    unfolding Startup_def Startup_loop_ok [OF ok] eq ..
  from 1 [of c] 1 [of "NewGlobalCache invites"] show ?thesis
    by (simp add: NewGlobalCache_def)
qed

text \<open>
  Claim C3 as stated fails: an entry with a room id and the timestamp 1, which is greater
  than 0, fails the second assertion.
\<close>

theorem Startup_rejects_timestamp_one_counterexample:
  "RoomID (room_with_timestamp ''!r:hs'' 1) \<noteq> [] \<and>
   0 < LastMessageTimestamp (room_with_timestamp ''!r:hs'' 1) \<and>
   Startup [(''!r:hs'', room_with_timestamp ''!r:hs'' 1)] (NewGlobalCache {}) =
     Inl (AssertionFailed ''last message timestamp exists'')"
  by (simp add: Startup_def input_at_def Assert_def room_with_timestamp_def fresh_RoomMetadata_def
      zero_RoomMetadata_def Let_def)

theorem Startup_succeeds_on_plausible_entries_witness:
  "RoomID (room_with_timestamp ''!r:hs'' 2) \<noteq> [] \<and>
   1 < LastMessageTimestamp (room_with_timestamp ''!r:hs'' 2) \<and>
   (\<exists>c'. Startup [(''!r:hs'', room_with_timestamp ''!r:hs'' 2)] (NewGlobalCache {}) = Inr c' \<and>
         roomIDToMetadata c' = [''!r:hs'' \<mapsto> room_with_timestamp ''!r:hs'' 2])"
proof -
  have h: "\<forall>(roomID, metadata) \<in> set [(''!r:hs'', room_with_timestamp ''!r:hs'' 2)].
       RoomID metadata \<noteq> [] \<and> 1 < LastMessageTimestamp metadata"
    by (simp add: room_with_timestamp_def fresh_RoomMetadata_def zero_RoomMetadata_def)
  from Startup_succeeds_on_plausible_entries [OF h, of "NewGlobalCache {}" "{}"] h
  show ?thesis by auto
qed


section \<open>Proofs: transactions and sessions\<close>

text \<open>
  What \<^verbatim>\<open>WithTransaction\<close> does once the transaction has begun, by the outcome of the
  callback. An error returned, and a panic after which \<^verbatim>\<open>recover\<close> returns a value, lead to
  \<^verbatim>\<open>Rollback\<close>, to an error returned and to the database as it was. A nil returned leads to
  \<^verbatim>\<open>Commit\<close>, and so does a panic after which \<^verbatim>\<open>recover\<close> returns nil.
\<close>

lemma WithTransaction_outcomes:
  assumes "Beginx_error drv = None"
  shows "(\<forall>v msg txn vars'. fn db vars = (Panics v, txn, vars') \<and> recover rt (Panics v) = Some msg \<longrightarrow>
            ended_by (WithTransaction rt drv db vars fn) = CalledRollback \<and>
            returned (WithTransaction rt drv db vars fn) = Some (''panic: '' @ msg) \<and>
            database (WithTransaction rt drv db vars fn) = db) \<and>
         (\<forall>e txn vars'. fn db vars = (Returns (Some e), txn, vars') \<longrightarrow>
            ended_by (WithTransaction rt drv db vars fn) = CalledRollback \<and>
            returned (WithTransaction rt drv db vars fn) = Some e \<and>
            database (WithTransaction rt drv db vars fn) = db) \<and>
         (\<forall>outcome txn vars'. fn db vars = (outcome, txn, vars') \<and>
            (outcome = Returns None \<or> (\<exists>v. outcome = Panics v \<and> recover rt (Panics v) = None)) \<longrightarrow>
            ended_by (WithTransaction rt drv db vars fn) = CalledCommit \<and>
            (Commit_error drv = None \<longrightarrow>
               returned (WithTransaction rt drv db vars fn) = None \<and>
               database (WithTransaction rt drv db vars fn) = txn))"
  using assms by (auto simp: WithTransaction_def recover_def Let_def split: option.splits)

lemma recover_panic:
  "recover rt (Panics (Some v)) = Some v"
  "recover NilPanicRecoversPanicNilError (Panics None) = Some ''panic called with nil argument''"
  "recover NilPanicRecoversNil (Panics None) = None"
  by (simp_all add: recover_def)

text \<open>
  So a panic with a value that is not nil is always rolled back, and under a runtime of
  Go 1.21 a panic with the nil value too.
\<close>

lemma WithTransaction_rolls_back_panic:
  assumes "Beginx_error drv = None" and "fn db vars = (Panics v, txn, vars')"
    and "v \<noteq> None \<or> rt = NilPanicRecoversPanicNilError"
  shows "ended_by (WithTransaction rt drv db vars fn) = CalledRollback \<and>
         returned (WithTransaction rt drv db vars fn) \<noteq> None \<and>
         database (WithTransaction rt drv db vars fn) = db"
  using assms by (auto simp: WithTransaction_def recover_def Let_def split: option.splits)

lemma WithTransaction_examples:
  "ended_by (WithTransaction rt no_driver_faults 7 () panicking_fn) = CalledRollback"
  "returned (WithTransaction rt no_driver_faults 7 () panicking_fn) = Some ''panic: index out of range''"
  "database (WithTransaction rt no_driver_faults 7 () panicking_fn) = 7"
  "ended_by (WithTransaction rt no_driver_faults 7 () failing_fn) = CalledRollback"
  "returned (WithTransaction rt no_driver_faults 7 () failing_fn) = Some ''constraint violated''"
  "database (WithTransaction rt no_driver_faults 7 () failing_fn) = 7"
  "ended_by (WithTransaction rt no_driver_faults 7 () writing_fn) = CalledCommit"
  "returned (WithTransaction rt no_driver_faults 7 () writing_fn) = None"
  "database (WithTransaction rt no_driver_faults 7 () writing_fn) = 8"
  "ended_by (WithTransaction NilPanicRecoversPanicNilError no_driver_faults 7 () nil_panicking_fn) = CalledRollback"
  "returned (WithTransaction NilPanicRecoversPanicNilError no_driver_faults 7 () nil_panicking_fn) =
     Some ''panic: panic called with nil argument''"
  by (simp_all add: WithTransaction_def recover_def no_driver_faults_def panicking_fn_def
      failing_fn_def writing_fn_def nil_panicking_fn_def Let_def)

text \<open>
  Claim C8 holds of a callback that returns, and of one that panics with a value that is
  not nil; the code does not keep it for a panic with the nil value. Under a runtime where
  \<^verbatim>\<open>recover\<close> returns nil after such a panic, with a driver that does not fail, the callback
  that writes and then panics with nil is not rolled back: \<^verbatim>\<open>WithTransaction\<close> calls
  \<^verbatim>\<open>Commit\<close>, returns nil, and what the callback wrote is in the database. The comment above
  \<^verbatim>\<open>WithTransaction\<close> says that the transaction is rolled back if the code panics.
\<close>

theorem WithTransaction_commits_nil_panic:
  "nil_panicking_fn 7 () = (Panics None, 8, ()) \<and>
   ended_by (WithTransaction NilPanicRecoversNil no_driver_faults 7 () nil_panicking_fn) = CalledCommit \<and>
   returned (WithTransaction NilPanicRecoversNil no_driver_faults 7 () nil_panicking_fn) = None \<and>
   database (WithTransaction NilPanicRecoversNil no_driver_faults 7 () nil_panicking_fn) = 8"
  by (simp add: WithTransaction_def recover_def no_driver_faults_def nil_panicking_fn_def Let_def)

lemma NewSession_fn_devices:
  "syncv3_sessions_v2devices (fst (snd (NewSession_fn faults deviceID txn session))) = syncv3_sessions_v2devices txn \<or>
   (syncv3_sessions_v2devices txn deviceID = None \<and>
    syncv3_sessions_v2devices (fst (snd (NewSession_fn faults deviceID txn session))) =
      (syncv3_sessions_v2devices txn)(deviceID \<mapsto> \<lparr>row_user_id = [], row_since = []\<rparr>))"
  by (simp add: NewSession_fn_def Let_def split: option.splits)

lemma NewSession_fn_session:
  assumes "syncv3_sessions_v2devices txn deviceID = Some row"
    and "snd (snd (NewSession_fn faults deviceID txn None)) = Some s"
  shows "sess_V2Since s = row_since row \<and> sess_UserID s = row_user_id row \<and> sess_DeviceID s = deviceID"
  using assms by (auto simp: NewSession_fn_def Let_def split: option.splits if_splits)

lemma WithTransaction_database:
  "database (WithTransaction rt drv db vars fn) = db \<or>
   database (WithTransaction rt drv db vars fn) = fst (snd (fn db vars))"
  by (auto simp: WithTransaction_def Let_def split: option.splits prod.splits)

lemma WithTransaction_captured:
  "captured (WithTransaction rt drv db vars fn) = vars \<or>
   captured (WithTransaction rt drv db vars fn) = snd (snd (fn db vars))"
  by (auto simp: WithTransaction_def Let_def split: option.splits prod.splits)

lemma NewSession_no_faults:
  "NewSession rt no_driver_faults no_statement_faults deviceID db =
     (case syncv3_sessions_v2devices db deviceID of
        None \<Rightarrow>
          \<lparr>returned = None, ended_by = CalledCommit,
           database = db\<lparr>syncv3_session_id_seq := syncv3_session_id_seq db + 1,
               syncv3_sessions := syncv3_sessions db @
                 [\<lparr>row_session_id = syncv3_session_id_seq db + 1, row_device_id = deviceID,
                   row_last_confirmed_token = [], row_last_unconfirmed_token = []\<rparr>],
               syncv3_sessions_v2devices := (syncv3_sessions_v2devices db)
                 (deviceID \<mapsto> \<lparr>row_user_id = [], row_since = []\<rparr>)\<rparr>,
           captured = Some \<lparr>sess_ID = syncv3_session_id_seq db + 1, sess_DeviceID = deviceID,
                            sess_V2Since = [], sess_UserID = []\<rparr>\<rparr>
      | Some row \<Rightarrow>
          \<lparr>returned = None, ended_by = CalledCommit,
           database = db\<lparr>syncv3_session_id_seq := syncv3_session_id_seq db + 1,
               syncv3_sessions := syncv3_sessions db @
                 [\<lparr>row_session_id = syncv3_session_id_seq db + 1, row_device_id = deviceID,
                   row_last_confirmed_token = [], row_last_unconfirmed_token = []\<rparr>]\<rparr>,
           captured = Some \<lparr>sess_ID = syncv3_session_id_seq db + 1, sess_DeviceID = deviceID,
                            sess_V2Since = row_since row, sess_UserID = row_user_id row\<rparr>\<rparr>)"
  by (simp add: NewSession_def WithTransaction_def recover_def NewSession_fn_def no_driver_faults_def
      no_statement_faults_def Let_def split: option.splits)

text \<open>
  Claim C7. Whatever the driver does: when the device id has a row, \<^verbatim>\<open>NewSession\<close> leaves
  that row as it is and any session it returns carries the row's since and user id (and with
  a driver that does not fail it returns one, with no error); the only row of the devices
  table that can differ afterwards is the one of the device id, and only when there was
  none, and then it has the empty since; with no row and a driver that does not fail that
  row is inserted and the session has the empty since.
\<close>

theorem NewSession_keeps_since:
  "(\<forall>row. syncv3_sessions_v2devices db deviceID = Some row \<longrightarrow>
      syncv3_sessions_v2devices (database (NewSession rt drv faults deviceID db)) deviceID = Some row \<and>
      (\<forall>s. captured (NewSession rt drv faults deviceID db) = Some s \<longrightarrow>
           sess_V2Since s = row_since row \<and> sess_UserID s = row_user_id row \<and>
           sess_DeviceID s = deviceID) \<and>
      returned (NewSession rt no_driver_faults no_statement_faults deviceID db) = None \<and>
      (\<exists>s. captured (NewSession rt no_driver_faults no_statement_faults deviceID db) = Some s)) \<and>
   (\<forall>d. syncv3_sessions_v2devices (database (NewSession rt drv faults deviceID db)) d \<noteq>
          syncv3_sessions_v2devices db d \<longrightarrow>
        d = deviceID \<and> syncv3_sessions_v2devices db deviceID = None \<and>
        syncv3_sessions_v2devices (database (NewSession rt drv faults deviceID db)) d =
          Some \<lparr>row_user_id = [], row_since = []\<rparr>) \<and>
   (syncv3_sessions_v2devices db deviceID = None \<longrightarrow>
      syncv3_sessions_v2devices (database (NewSession rt no_driver_faults no_statement_faults deviceID db))
        deviceID = Some \<lparr>row_user_id = [], row_since = []\<rparr> \<and>
      returned (NewSession rt no_driver_faults no_statement_faults deviceID db) = None \<and>
      (\<exists>s. captured (NewSession rt no_driver_faults no_statement_faults deviceID db) = Some s \<and>
           sess_V2Since s = [] \<and> sess_UserID s = [] \<and> sess_DeviceID s = deviceID))"
proof -
  let ?R = "NewSession rt drv faults deviceID db"
  let ?fn = "NewSession_fn faults deviceID"
  have dbR: "database ?R = db \<or> database ?R = fst (snd (?fn db None))"
    unfolding NewSession_def by (rule WithTransaction_database)
  have capR: "captured ?R = None \<or> captured ?R = snd (snd (?fn db None))"
    unfolding NewSession_def by (rule WithTransaction_captured)
  note dev = NewSession_fn_devices [of faults deviceID db None]
  have 1: "\<forall>row. syncv3_sessions_v2devices db deviceID = Some row \<longrightarrow>
      syncv3_sessions_v2devices (database ?R) deviceID = Some row \<and>
      (\<forall>s. captured ?R = Some s \<longrightarrow>
           sess_V2Since s = row_since row \<and> sess_UserID s = row_user_id row \<and>
           sess_DeviceID s = deviceID) \<and>
      returned (NewSession rt no_driver_faults no_statement_faults deviceID db) = None \<and>
      (\<exists>s. captured (NewSession rt no_driver_faults no_statement_faults deviceID db) = Some s)"
  proof (intro allI impI conjI)
    fix row assume row: "syncv3_sessions_v2devices db deviceID = Some row"
    from dbR dev row show "syncv3_sessions_v2devices (database ?R) deviceID = Some row" by auto
    show "returned (NewSession rt no_driver_faults no_statement_faults deviceID db) = None"
      using row by (simp add: NewSession_no_faults)
    show "\<exists>s. captured (NewSession rt no_driver_faults no_statement_faults deviceID db) = Some s"
      using row by (simp add: NewSession_no_faults)
    fix s assume s: "captured ?R = Some s"
    with capR have "snd (snd (?fn db None)) = Some s" by auto
    from NewSession_fn_session [OF row this]
    show "sess_V2Since s = row_since row" "sess_UserID s = row_user_id row" "sess_DeviceID s = deviceID"
      by simp_all
  qed
  have 2: "\<forall>d. syncv3_sessions_v2devices (database ?R) d \<noteq> syncv3_sessions_v2devices db d \<longrightarrow>
        d = deviceID \<and> syncv3_sessions_v2devices db deviceID = None \<and>
        syncv3_sessions_v2devices (database ?R) d = Some \<lparr>row_user_id = [], row_since = []\<rparr>"
  proof (intro allI impI)
    fix d assume ne: "syncv3_sessions_v2devices (database ?R) d \<noteq> syncv3_sessions_v2devices db d"
    with dbR have e: "database ?R = fst (snd (?fn db None))" by auto
    with ne dev have n: "syncv3_sessions_v2devices db deviceID = None"
      and u: "syncv3_sessions_v2devices (database ?R) =
        (syncv3_sessions_v2devices db)(deviceID \<mapsto> \<lparr>row_user_id = [], row_since = []\<rparr>)"
      by auto
    from ne u have "d = deviceID" by (auto split: if_splits)
    with n u show "d = deviceID \<and> syncv3_sessions_v2devices db deviceID = None \<and>
        syncv3_sessions_v2devices (database ?R) d = Some \<lparr>row_user_id = [], row_since = []\<rparr>" by simp
  qed
  have 3: "syncv3_sessions_v2devices db deviceID = None \<longrightarrow>
      syncv3_sessions_v2devices (database (NewSession rt no_driver_faults no_statement_faults deviceID db))
        deviceID = Some \<lparr>row_user_id = [], row_since = []\<rparr> \<and>
      returned (NewSession rt no_driver_faults no_statement_faults deviceID db) = None \<and>
      (\<exists>s. captured (NewSession rt no_driver_faults no_statement_faults deviceID db) = Some s \<and>
           sess_V2Since s = [] \<and> sess_UserID s = [] \<and> sess_DeviceID s = deviceID)"
    by (simp add: NewSession_no_faults)
  from 1 2 3 show ?thesis by blast
qed

theorem NewSession_keeps_since_witness:
  "syncv3_sessions_v2devices one_device_db ''DEV1'' =
     Some \<lparr>row_user_id = ''@alice:hs'', row_since = ''s42''\<rparr> \<and>
   syncv3_sessions_v2devices
     (database (NewSession NilPanicRecoversNil no_driver_faults no_statement_faults ''DEV1'' one_device_db)) ''DEV1'' =
     Some \<lparr>row_user_id = ''@alice:hs'', row_since = ''s42''\<rparr> \<and>
   captured (NewSession NilPanicRecoversNil no_driver_faults no_statement_faults ''DEV1'' one_device_db) =
     Some \<lparr>sess_ID = 6, sess_DeviceID = ''DEV1'', sess_V2Since = ''s42'', sess_UserID = ''@alice:hs''\<rparr> \<and>
   syncv3_sessions_v2devices one_device_db ''DEV2'' = None \<and>
   syncv3_sessions_v2devices
     (database (NewSession NilPanicRecoversNil no_driver_faults no_statement_faults ''DEV2'' one_device_db)) ''DEV2'' \<noteq>
     syncv3_sessions_v2devices one_device_db ''DEV2'' \<and>
   syncv3_sessions_v2devices
     (database (NewSession NilPanicRecoversNil no_driver_faults no_statement_faults ''DEV2'' one_device_db)) ''DEV2'' =
     Some \<lparr>row_user_id = [], row_since = []\<rparr>"
proof -
  let ?row = "\<lparr>row_user_id = ''@alice:hs'', row_since = ''s42''\<rparr>"
  let ?R1 = "NewSession NilPanicRecoversNil no_driver_faults no_statement_faults ''DEV1'' one_device_db"
  let ?R2 = "NewSession NilPanicRecoversNil no_driver_faults no_statement_faults ''DEV2'' one_device_db"
  have r1: "syncv3_sessions_v2devices one_device_db ''DEV1'' = Some ?row"
    and r2: "syncv3_sessions_v2devices one_device_db ''DEV2'' = None"
    by (simp_all add: one_device_db_def)
  note t1 = NewSession_keeps_since [where db = one_device_db and deviceID = "''DEV1''" and rt = NilPanicRecoversNil
    and drv = no_driver_faults and faults = no_statement_faults]
  note t2 = NewSession_keeps_since [where db = one_device_db and deviceID = "''DEV2''" and rt = NilPanicRecoversNil
    and drv = no_driver_faults and faults = no_statement_faults]
  have c1: "captured ?R1 = Some \<lparr>sess_ID = 6, sess_DeviceID = ''DEV1'', sess_V2Since = ''s42'',
      sess_UserID = ''@alice:hs''\<rparr>"
    by (simp add: NewSession_no_faults one_device_db_def)
  from t1 r1 have k: "syncv3_sessions_v2devices (database ?R1) ''DEV1'' = Some ?row" by blast
  from t1 r1 c1 have "sess_V2Since \<lparr>sess_ID = 6, sess_DeviceID = ''DEV1'', sess_V2Since = ''s42'',
      sess_UserID = ''@alice:hs''\<rparr> = row_since ?row" by blast
  from t2 r2 have n: "syncv3_sessions_v2devices (database ?R2) ''DEV2'' =
      Some \<lparr>row_user_id = [], row_since = []\<rparr>" by blast
  then have ne: "syncv3_sessions_v2devices (database ?R2) ''DEV2'' \<noteq>
      syncv3_sessions_v2devices one_device_db ''DEV2''" using r2 by simp
  from t2 ne have "syncv3_sessions_v2devices one_device_db ''DEV2'' = None" by blast
  with r1 k c1 n ne show ?thesis by simp
qed


section \<open>Proofs: the account data extension\<close>

lemma fold_add_room_data:
  "fold add_room_data rows acc =
     (\<lambda>r. if r \<in> ad_RoomID ` set rows
          then Some ((case acc r of None \<Rightarrow> [] | Some ds \<Rightarrow> ds) @
                     map ad_Data (filter (\<lambda>ad. ad_RoomID ad = r) rows))
          else acc r)"
proof (induction rows arbitrary: acc)
  case Nil
  then show ?case by simp
next
  case (Cons ad rows)
  have none: "filter (\<lambda>a. ad_RoomID a = r) rows = []" if "r \<notin> ad_RoomID ` set rows" for r
    using that by (auto simp: filter_empty_conv)
  show ?case
    unfolding fold_simps Cons.IH
  proof (rule ext)
    fix r
    show "(if r \<in> ad_RoomID ` set rows
          then Some ((case add_room_data ad acc r of None \<Rightarrow> [] | Some ds \<Rightarrow> ds) @
                     map ad_Data (filter (\<lambda>ad. ad_RoomID ad = r) rows))
          else add_room_data ad acc r) =
         (if r \<in> ad_RoomID ` set (ad # rows)
          then Some ((case acc r of None \<Rightarrow> [] | Some ds \<Rightarrow> ds) @
                     map ad_Data (filter (\<lambda>ad. ad_RoomID ad = r) (ad # rows)))
          else acc r)"
    proof (cases "r = ad_RoomID ad")
      case True
      then show ?thesis
        using none [of r] by (cases "r \<in> ad_RoomID ` set rows") (simp_all add: add_room_data_def)
    next
      case False
      then have "add_room_data ad acc r = acc r" by (simp add: add_room_data_def)
      with False show ?thesis by auto
    qed
  qed
qed

lemma fold_add_room_data_empty: "fold add_room_data rows Map.empty = room_data rows"
  unfolding fold_add_room_data by (rule ext) (simp add: room_data_def)

text \<open>
  Claim C9, as the code has it. The response has global account data only if \<^verbatim>\<open>isInitial\<close>
  is true, and when it is and the lookup succeeds, the data of the rows found. Whenever the
  map \<^verbatim>\<open>roomIDToTimeline\<close> is not empty, and whatever \<^verbatim>\<open>isInitial\<close> is, the storage is asked
  for exactly the room ids of the map, and when that lookup succeeds the response has the
  data of the rows found, grouped by the room of each row; with an empty map it has no room
  data. A lookup that fails leaves its field nil.
\<close>

theorem ProcessAccountData_fields:
  "(Global (ProcessAccountData store roomIDToTimeline userID isInitial) \<noteq> None \<longrightarrow> isInitial) \<and>
   (\<forall>globalAccountData. isInitial \<and> store userID [] = Inr globalAccountData \<longrightarrow>
      Global (ProcessAccountData store roomIDToTimeline userID isInitial) =
        Some (map ad_Data globalAccountData)) \<and>
   (\<forall>rows. roomIDToTimeline \<noteq> [] \<and> store userID (map fst roomIDToTimeline) = Inr rows \<longrightarrow>
      Rooms (ProcessAccountData store roomIDToTimeline userID isInitial) = Some (room_data rows)) \<and>
   (roomIDToTimeline = [] \<longrightarrow>
      Rooms (ProcessAccountData store roomIDToTimeline userID isInitial) = None) \<and>
   (\<forall>err. isInitial \<and> store userID [] = Inl err \<longrightarrow>
      Global (ProcessAccountData store roomIDToTimeline userID isInitial) = None) \<and>
   (\<forall>err. store userID (map fst roomIDToTimeline) = Inl err \<longrightarrow>
      Rooms (ProcessAccountData store roomIDToTimeline userID isInitial) = None) \<and>
   Rooms (ProcessAccountData store roomIDToTimeline userID True) =
     Rooms (ProcessAccountData store roomIDToTimeline userID False)"
  by (auto simp: ProcessAccountData_def Let_def accountEventsAsJSON_def fold_add_room_data_empty
      split: sum.splits)

text \<open>
  Claim C9 as stated fails: with \<^verbatim>\<open>isInitial\<close> true, a map that is not empty and a storage
  that returns an error, the response has neither global nor room account data.
\<close>

theorem ProcessAccountData_store_error_counterexample:
  "Global (ProcessAccountData unavailable_store [(''!r:hs'', [''$event''])] ''@alice:hs'' True) = None \<and>
   Rooms (ProcessAccountData unavailable_store [(''!r:hs'', [''$event''])] ''@alice:hs'' True) = None"
  by (simp add: ProcessAccountData_def unavailable_store_def Let_def)

theorem ProcessAccountData_fields_witness:
  "Global (ProcessAccountData small_store [(''!r:hs'', [''$event''])] ''@alice:hs'' True) \<noteq> None \<and>
   small_store ''@alice:hs'' [] = Inr [direct_row] \<and>
   Global (ProcessAccountData small_store [(''!r:hs'', [''$event''])] ''@alice:hs'' True) =
     Some [JObject [(''type'', JString ''m.direct'')]] \<and>
   [(''!r:hs'', [''$event''])] \<noteq> ([] :: (string \<times> string list) list) \<and>
   small_store ''@alice:hs'' (map fst [(''!r:hs'', [''$event''])]) = Inr [tag_row] \<and>
   Rooms (ProcessAccountData small_store [(''!r:hs'', [''$event''])] ''@alice:hs'' False) =
     Some (room_data [tag_row]) \<and>
   room_data [tag_row] ''!r:hs'' = Some [JObject [(''type'', JString ''m.tag'')]] \<and>
   Rooms (ProcessAccountData small_store [] ''@alice:hs'' True) = None \<and>
   unavailable_store ''@alice:hs'' [] = Inl ''connection refused'' \<and>
   Global (ProcessAccountData unavailable_store [] ''@alice:hs'' True) = None \<and>
   Rooms (ProcessAccountData unavailable_store [(''!r:hs'', [''$event''])] ''@alice:hs'' False) = None"
proof -
  let ?m = "[(''!r:hs'', [''$event''])]"
  note t1 = ProcessAccountData_fields [of small_store ?m "''@alice:hs''" True]
  note t2 = ProcessAccountData_fields [of small_store ?m "''@alice:hs''" False]
  note t3 = ProcessAccountData_fields [of small_store "[]" "''@alice:hs''" True]
  note t4 = ProcessAccountData_fields [of unavailable_store "[]" "''@alice:hs''" True]
  note t5 = ProcessAccountData_fields [of unavailable_store ?m "''@alice:hs''" False]
  have g: "small_store ''@alice:hs'' [] = Inr [direct_row]" by (simp add: small_store_def)
  have r: "small_store ''@alice:hs'' (map fst ?m) = Inr [tag_row]"
    by (simp add: small_store_def tag_row_def)
  have u: "unavailable_store ''@alice:hs'' [] = Inl ''connection refused''"
    and u': "unavailable_store ''@alice:hs'' (map fst ?m) = Inl ''connection refused''"
    by (simp_all add: unavailable_store_def)
  from t1 g have 1: "Global (ProcessAccountData small_store ?m ''@alice:hs'' True) =
     Some [JObject [(''type'', JString ''m.direct'')]]" by (simp add: direct_row_def)
  from t2 r have 2: "Rooms (ProcessAccountData small_store ?m ''@alice:hs'' False) =
     Some (room_data [tag_row])" by blast
  have 3: "room_data [tag_row] ''!r:hs'' = Some [JObject [(''type'', JString ''m.tag'')]]"
    by (simp add: room_data_def tag_row_def)
  from t3 have 4: "Rooms (ProcessAccountData small_store [] ''@alice:hs'' True) = None" by blast
  from t4 u have 5: "Global (ProcessAccountData unavailable_store [] ''@alice:hs'' True) = None" by blast
  from t5 u' have 6: "Rooms (ProcessAccountData unavailable_store ?m ''@alice:hs'' False) = None" by blast
  from g r u 1 2 3 4 5 6 show ?thesis by simp
qed


section \<open>Proofs: the response and its JSON form\<close>

lemma key_is_simps [simp]:
  "key_is ''op'' ''op''" "\<not> key_is ''op'' ''index''" "\<not> key_is ''op'' ''room_id''"
  "\<not> key_is ''op'' ''range''" "\<not> key_is ''op'' ''room_ids''"
  "key_is ''index'' ''index''" "\<not> key_is ''index'' ''room_id''"
  "key_is ''room_id'' ''room_id''"
  "key_is ''range'' ''range''" "\<not> key_is ''range'' ''room_ids''"
  "key_is ''room_ids'' ''room_ids''"
  "key_is ''ops'' ''ops''" "\<not> key_is ''ops'' ''count''" "key_is ''count'' ''count''"
  "key_is ''lists'' ''lists''" "\<not> key_is ''rooms'' ''lists''"
  "key_is ''rooms'' ''rooms''"
  "\<not> key_is ''rooms'' ''extensions''" "\<not> key_is ''lists'' ''extensions''"
  "key_is ''extensions'' ''extensions''"
  "\<not> key_is ''rooms'' ''pos''" "\<not> key_is ''lists'' ''pos''" "\<not> key_is ''extensions'' ''pos''"
  "key_is ''pos'' ''pos''"
  "\<not> key_is ''rooms'' ''txn_id''" "\<not> key_is ''lists'' ''txn_id''" "\<not> key_is ''extensions'' ''txn_id''"
  "\<not> key_is ''pos'' ''txn_id''" "key_is ''txn_id'' ''txn_id''"
  by (simp_all add: key_is_def ascii_lower_def)

lemma key_is_folds_case: "key_is ''index'' ''INDEX''" "key_is ''index'' ''Index''" "\<not> key_is ''index'' ''in_dex''"
  by (simp_all add: key_is_def ascii_lower_def)

lemma unmarshal_ops_parsed:
  "unmarshal_ops raws = Inr ops \<Longrightarrow> list_all2 parsed_from ops raws"
proof (induction raws arbitrary: ops)
  case Nil
  then show ?case by simp
next
  case (Cons raw raws)
  show ?case
  proof (cases "gjson_Exists (gjson_Get (Some raw) [''range''])")
    case True
    with Cons.prems obtain r rest where
      "unmarshal_ResponseOpRange raw = Inr r" "unmarshal_ops raws = Inr rest" "ops = OpRange r # rest"
      by (cases "unmarshal_ResponseOpRange raw"; cases "unmarshal_ops raws") auto
    with True Cons.IH [of rest] show ?thesis by simp
  next
    case False
    with Cons.prems obtain r rest where
      "unmarshal_ResponseOpSingle raw = Inr r" "unmarshal_ops raws = Inr rest" "ops = OpSingle r # rest"
      by (cases "unmarshal_ResponseOpSingle raw"; cases "unmarshal_ops raws") auto
    with False Cons.IH [of rest] show ?thesis by simp
  qed
qed

lemma unmarshal_lists_parsed:
  "unmarshal_lists ts = Inr ls \<Longrightarrow> list_all2 list_parsed_from ls ts"
proof (induction ts arbitrary: ls)
  case Nil
  then show ?case by simp
next
  case (Cons t ts)
  obtain k l where t: "t = (k, l)" by (cases t)
  with Cons.prems obtain ops rest where
    o: "unmarshal_ops (tmp_Ops l) = Inr ops" "unmarshal_lists ts = Inr rest"
       "ls = (k, \<lparr>Ops = ops, Count = tmp_Count l\<rparr>) # rest"
    by (cases "unmarshal_ops (tmp_Ops l)"; cases "unmarshal_lists ts") auto
  from unmarshal_ops_parsed [OF o(1)] Cons.IH [OF o(2)] o(3) t show ?case
    by (simp add: list_parsed_from_def)
qed

lemma UnmarshalJSON_parsed:
  assumes "UnmarshalJSON cd b = Inr r"
  shows "\<exists>t. unmarshal_temporary cd b = Inr t \<and> list_all2 list_parsed_from (resp_Lists r) (tmp_Lists t)"
proof -
  from assms obtain t ls where
    t: "unmarshal_temporary cd b = Inr t" "unmarshal_lists (tmp_Lists t) = Inr ls" "resp_Lists r = ls"
    by (cases "unmarshal_temporary cd b"; cases "unmarshal_lists (tmp_Lists (projr (unmarshal_temporary cd b)))")
       (auto simp: UnmarshalJSON_def)
  with unmarshal_lists_parsed [OF t(2)] show ?thesis by auto
qed

subsection \<open>Marshalling and unmarshalling again\<close>

lemma unmarshal_marshal_int: "unmarshal_int cur (marshal_int w) = Inr w"
proof -
  have "in_int64 (sint w)"
    using sint_ge [of w] sint_lt [of w] by (simp add: in_int64_def)
  then show ?thesis by (simp add: marshal_int_def)
qed

lemma unmarshal_marshal_int_ptr: "unmarshal_int_ptr cur (marshal_int w) = Inr (Some w)"
  using unmarshal_marshal_int [of _ w] by (simp add: marshal_int_def)

lemma unmarshal_all_strings: "unmarshal_all (unmarshal_string []) (map JString ids) = Inr ids"
  by (induction ids) simp_all

lemma unmarshal_marshal_ResponseOpSingle:
  "unmarshal_ResponseOpSingle (marshal_ResponseOpSingle r) = Inr r"
  by (cases "sgl_Index r")
     (simp_all add: unmarshal_ResponseOpSingle_def marshal_ResponseOpSingle_def
        ResponseOpSingle_field_def unmarshal_marshal_int_ptr)

lemma unmarshal_marshal_ResponseOpRange:
  "unmarshal_ResponseOpRange (marshal_ResponseOpRange r) =
     Inr (r\<lparr>rng_RoomIDs := (if rng_RoomIDs r = Some [] then None else rng_RoomIDs r)\<rparr>)"
  by (cases "rng_RoomIDs r")
     (simp_all add: unmarshal_ResponseOpRange_def marshal_ResponseOpRange_def
        ResponseOpRange_field_def unmarshal_marshal_int unmarshal_all_strings)

lemma range_member_of_marshalled:
  "gjson_Exists (gjson_Get (Some (marshal_ResponseOpRange r)) [''range''])"
  "\<not> gjson_Exists (gjson_Get (Some (marshal_ResponseOpSingle s)) [''range''])"
  by (simp_all add: marshal_ResponseOpRange_def marshal_ResponseOpSingle_def split: option.splits)

lemma unmarshal_ops_marshalled:
  "unmarshal_ops (map marshal_ResponseOp ops) = Inr (map renil ops)"
proof (induction ops)
  case Nil
  then show ?case by simp
next
  case (Cons op ops)
  then show ?case
    by (cases op)
       (simp_all add: range_member_of_marshalled unmarshal_marshal_ResponseOpRange
          unmarshal_marshal_ResponseOpSingle)
qed

lemma unmarshal_temporary_list_marshalled:
  "unmarshal_temporary_list (marshal_ResponseList l) =
     Inr \<lparr>tmp_Ops = map marshal_ResponseOp (Ops l), tmp_Count = Count l\<rparr>"
  by (simp add: unmarshal_temporary_list_def marshal_ResponseList_def temporary_list_field_def
      unmarshal_marshal_int)

lemma map_store_new: "k \<notin> fst ` set kvs \<Longrightarrow> map_store k v kvs = kvs @ [(k, v)]"
  by (induction kvs) auto

lemma unmarshal_members_lists:
  "distinct (map fst kls) \<Longrightarrow> fst ` set acc \<inter> fst ` set kls = {} \<Longrightarrow>
   unmarshal_members temporary_Lists_member (map (\<lambda>(k, l). (k, marshal_ResponseList l)) kls) acc =
     Inr (acc @ map as_temporary kls)"
proof (induction kls arbitrary: acc)
  case Nil
  then show ?case by simp
next
  case (Cons kl kls)
  obtain k l where kl: "kl = (k, l)" by (cases kl)
  have new: "k \<notin> fst ` set acc" using Cons.prems(2) kl by auto
  have d: "distinct (map fst kls)" and
    disj: "fst ` set (acc @ [as_temporary kl]) \<inter> fst ` set kls = {}"
    using Cons.prems kl by (auto simp: as_temporary_def)
  have step: "temporary_Lists_member k (marshal_ResponseList l) acc = Inr (acc @ [as_temporary kl])"
    using new kl
    by (simp add: temporary_Lists_member_def unmarshal_temporary_list_marshalled map_store_new
        as_temporary_def)
  show ?case
    using Cons.IH [OF d disj] step kl by simp
qed

lemma unmarshal_lists_as_temporary:
  "unmarshal_lists (map as_temporary kls) =
     Inr (map (\<lambda>(k, l). (k, l\<lparr>Ops := map renil (Ops l)\<rparr>)) kls)"
proof (induction kls)
  case Nil
  then show ?case by simp
next
  case (Cons kl kls)
  obtain k l where kl: "kl = (k, l)" by (cases kl)
  then show ?case using Cons.IH
    by (simp add: as_temporary_def unmarshal_ops_marshalled)
qed

lemma unmarshal_temporary_marshalled:
  assumes "distinct (map fst (resp_Lists r))"
    and "dec_Rooms cd (zero_Rooms cd) (enc_Rooms cd (resp_Rooms r)) = Inr (resp_Rooms r)"
    and "dec_Extensions cd (zero_Extensions cd) (enc_Extensions cd (resp_Extensions r)) = Inr (resp_Extensions r)"
  shows "unmarshal_temporary cd (marshal_Response cd r) =
     Inr \<lparr>tmp_Rooms = resp_Rooms r, tmp_Lists = map as_temporary (sort_key fst (resp_Lists r)),
          tmp_Extensions = resp_Extensions r, tmp_Pos = resp_Pos r, tmp_TxnID = resp_TxnID r\<rparr>"
proof -
  have d: "distinct (map fst (sort_key fst (resp_Lists r)))"
    using assms(1) by (metis distinct_map distinct_sort set_sort)
  have l: "unmarshal_members temporary_Lists_member
      (map (\<lambda>(k, l). (k, marshal_ResponseList l)) (sort_key fst (resp_Lists r))) [] =
      Inr (map as_temporary (sort_key fst (resp_Lists r)))"
    using unmarshal_members_lists [OF d, of "[]"] by simp
  show ?thesis
    using assms(2,3) l
    by (simp add: unmarshal_temporary_def marshal_Response_def temporary_field_def)
qed

lemma UnmarshalJSON_marshalled:
  assumes "distinct (map fst (resp_Lists r))"
    and "dec_Rooms cd (zero_Rooms cd) (enc_Rooms cd (resp_Rooms r)) = Inr (resp_Rooms r)"
    and "dec_Extensions cd (zero_Extensions cd) (enc_Extensions cd (resp_Extensions r)) = Inr (resp_Extensions r)"
  shows "UnmarshalJSON cd (marshal_Response cd r) =
     Inr (r\<lparr>resp_Lists := map (\<lambda>(k, l). (k, l\<lparr>Ops := map renil (Ops l)\<rparr>)) (sort_key fst (resp_Lists r))\<rparr>)"
  by (simp add: UnmarshalJSON_def unmarshal_temporary_marshalled [OF assms] unmarshal_lists_as_temporary)

lemma single_member_index:
  "gjson_Get (Some (marshal_ResponseOpSingle s)) [''index''] =
     (case sgl_Index s of None \<Rightarrow> None | Some i \<Rightarrow> Some (JNumber (sint i)))"
  by (simp add: marshal_ResponseOpSingle_def marshal_int_def split: option.splits)

lemma Ops_after_round_trip:
  fixes kls :: "(string \<times> ResponseList) list"
  assumes d: "distinct (map fst kls)" and m: "(k, l) \<in> set kls"
  shows "map_of (map (\<lambda>(k, l). (k, l\<lparr>Ops := map renil (Ops l)\<rparr>)) (sort_key fst kls)) k =
           Some (l\<lparr>Ops := map renil (Ops l)\<rparr>)"
proof -
  let ?f = "\<lambda>(k, l :: ResponseList). (k, l\<lparr>Ops := map renil (Ops l)\<rparr>)"
  have fst_f: "map fst (map ?f xs) = map fst xs" for xs :: "(string \<times> ResponseList) list"
    by (induction xs) auto
  have "distinct (map fst (sort_key fst kls))"
    using d by (metis distinct_map distinct_sort set_sort)
  then have "distinct (map fst (map ?f (sort_key fst kls)))" by (simp only: fst_f)
  moreover have "(k, l\<lparr>Ops := map renil (Ops l)\<rparr>) \<in> set (map ?f (sort_key fst kls))"
    using m by force
  ultimately show ?thesis by (rule map_of_is_SomeI)
qed

text \<open>
  Claim C6. Whenever \<^verbatim>\<open>UnmarshalJSON\<close> succeeds, each list of the response has the key and
  count of a list of the temporary struct, and each of its operations comes from the raw
  operation at the same place: as a range operation if the raw operation has a \<^verbatim>\<open>range\<close>
  member, as a single operation if it has none. Marshalling a response and unmarshalling it
  again succeeds and gives back every single operation at its place as it was, so that an
  index pointing at 0 is present and 0 again. A single operation is marshalled with an
  \<^verbatim>\<open>index\<close> member exactly when its index is not nil, and an index pointing at 0 as the
  number 0.
\<close>

theorem UnmarshalJSON_discriminates_and_keeps_index:
  "(\<forall>b r. UnmarshalJSON cd b = Inr r \<longrightarrow>
      (\<exists>t. unmarshal_temporary cd b = Inr t \<and>
           list_all2 list_parsed_from (resp_Lists r) (tmp_Lists t))) \<and>
   (\<forall>r k l i s.
      distinct (map fst (resp_Lists r)) \<and>
      dec_Rooms cd (zero_Rooms cd) (enc_Rooms cd (resp_Rooms r)) = Inr (resp_Rooms r) \<and>
      dec_Extensions cd (zero_Extensions cd) (enc_Extensions cd (resp_Extensions r)) =
        Inr (resp_Extensions r) \<and>
      (k, l) \<in> set (resp_Lists r) \<and> i < length (Ops l) \<and> Ops l ! i = OpSingle s \<longrightarrow>
      (\<exists>r' l'. UnmarshalJSON cd (marshal_Response cd r) = Inr r' \<and>
              map_of (resp_Lists r') k = Some l' \<and> length (Ops l') = length (Ops l) \<and>
              Ops l' ! i = OpSingle s)) \<and>
   (\<forall>s. gjson_Exists (gjson_Get (Some (marshal_ResponseOpSingle s)) [''index'']) \<longleftrightarrow>
        sgl_Index s \<noteq> None) \<and>
   (\<forall>s. sgl_Index s = Some 0 \<longrightarrow>
        gjson_Get (Some (marshal_ResponseOpSingle s)) [''index''] = Some (JNumber 0))"
proof -
  have 1: "\<forall>b r. UnmarshalJSON cd b = Inr r \<longrightarrow>
      (\<exists>t. unmarshal_temporary cd b = Inr t \<and>
           list_all2 list_parsed_from (resp_Lists r) (tmp_Lists t))"
    using UnmarshalJSON_parsed by blast
  have 2: "\<forall>r k l i s.
      distinct (map fst (resp_Lists r)) \<and>
      dec_Rooms cd (zero_Rooms cd) (enc_Rooms cd (resp_Rooms r)) = Inr (resp_Rooms r) \<and>
      dec_Extensions cd (zero_Extensions cd) (enc_Extensions cd (resp_Extensions r)) =
        Inr (resp_Extensions r) \<and>
      (k, l) \<in> set (resp_Lists r) \<and> i < length (Ops l) \<and> Ops l ! i = OpSingle s \<longrightarrow>
      (\<exists>r' l'. UnmarshalJSON cd (marshal_Response cd r) = Inr r' \<and>
              map_of (resp_Lists r') k = Some l' \<and> length (Ops l') = length (Ops l) \<and>
              Ops l' ! i = OpSingle s)"
  proof (intro allI impI, elim conjE)
    fix r :: "('a, 'b) Response" and k l i s
    assume d: "distinct (map fst (resp_Lists r))"
      and cr: "dec_Rooms cd (zero_Rooms cd) (enc_Rooms cd (resp_Rooms r)) = Inr (resp_Rooms r)"
      and ce: "dec_Extensions cd (zero_Extensions cd) (enc_Extensions cd (resp_Extensions r)) =
        Inr (resp_Extensions r)"
      and m: "(k, l) \<in> set (resp_Lists r)" and i: "i < length (Ops l)" and s: "Ops l ! i = OpSingle s"
    let ?r' = "r\<lparr>resp_Lists := map (\<lambda>(k, l). (k, l\<lparr>Ops := map renil (Ops l)\<rparr>))
                              (sort_key fst (resp_Lists r))\<rparr>"
    let ?l' = "l\<lparr>Ops := map renil (Ops l)\<rparr>"
    have a: "UnmarshalJSON cd (marshal_Response cd r) = Inr ?r'"
      by (rule UnmarshalJSON_marshalled [OF d cr ce])
    have b: "map_of (resp_Lists ?r') k = Some ?l'"
      using Ops_after_round_trip [OF d m] by simp
    have c: "length (Ops ?l') = length (Ops l)" by simp
    have e: "Ops ?l' ! i = OpSingle s" using i s by simp
    from a b c e show "\<exists>r' l'. UnmarshalJSON cd (marshal_Response cd r) = Inr r' \<and>
              map_of (resp_Lists r') k = Some l' \<and> length (Ops l') = length (Ops l) \<and>
              Ops l' ! i = OpSingle s" by blast
  qed
  have 3: "\<forall>s. gjson_Exists (gjson_Get (Some (marshal_ResponseOpSingle s)) [''index'']) \<longleftrightarrow>
        sgl_Index s \<noteq> None"
    by (simp add: single_member_index split: option.splits)
  have 4: "\<forall>s. sgl_Index s = Some 0 \<longrightarrow>
        gjson_Get (Some (marshal_ResponseOpSingle s)) [''index''] = Some (JNumber 0)"
    by (simp add: single_member_index)
  from 1 2 3 4 show ?thesis by blast
qed

lemma marshal_small_response:
  "marshal_Response unit_coding small_response =
     JObject [(''lists'', JObject [(''a'', JObject
                 [(''ops'', JArray [JObject [(''op'', JString ''DELETE''), (''index'', JNumber 0)],
                                    JObject [(''op'', JString ''SYNC''),
                                             (''range'', JArray [JNumber 0, JNumber 1]),
                                             (''room_ids'', JArray [JString ''!a:hs'', JString ''!b:hs''])]]),
                  (''count'', JNumber 2)])]),
              (''rooms'', JObject []), (''extensions'', JObject []), (''pos'', JString ''5'')]"
  by (simp add: marshal_Response_def marshal_ResponseList_def marshal_ResponseOpSingle_def
      marshal_ResponseOpRange_def marshal_int_def unit_coding_def small_response_def
      delete_at_zero_def sync_two_def)

theorem UnmarshalJSON_discriminates_and_keeps_index_witness:
  "UnmarshalJSON unit_coding (marshal_Response unit_coding small_response) = Inr small_response \<and>
   unmarshal_temporary unit_coding (marshal_Response unit_coding small_response) =
     Inr \<lparr>tmp_Rooms = (),
          tmp_Lists = [(''a'', \<lparr>tmp_Ops = [marshal_ResponseOpSingle delete_at_zero,
                                           marshal_ResponseOpRange sync_two], tmp_Count = 2\<rparr>)],
          tmp_Extensions = (), tmp_Pos = ''5'', tmp_TxnID = []\<rparr> \<and>
   parsed_from (OpSingle delete_at_zero) (marshal_ResponseOpSingle delete_at_zero) \<and>
   parsed_from (OpRange sync_two) (marshal_ResponseOpRange sync_two) \<and>
   distinct (map fst (resp_Lists small_response)) \<and>
   (''a'', \<lparr>Ops = [OpSingle delete_at_zero, OpRange sync_two], Count = 2\<rparr>) \<in> set (resp_Lists small_response) \<and>
   sgl_Index delete_at_zero = Some 0 \<and>
   gjson_Get (Some (marshal_ResponseOpSingle delete_at_zero)) [''index''] = Some (JNumber 0)"
proof -
  let ?l = "\<lparr>Ops = [OpSingle delete_at_zero, OpRange sync_two], Count = 2\<rparr>"
  note inst = UnmarshalJSON_discriminates_and_keeps_index [of unit_coding]
  have d: "distinct (map fst (resp_Lists small_response))"
    and m: "(''a'', ?l) \<in> set (resp_Lists small_response)"
    and c: "dec_Rooms unit_coding (zero_Rooms unit_coding)
              (enc_Rooms unit_coding (resp_Rooms small_response)) = Inr (resp_Rooms small_response)"
           "dec_Extensions unit_coding (zero_Extensions unit_coding)
              (enc_Extensions unit_coding (resp_Extensions small_response)) =
              Inr (resp_Extensions small_response)"
    and i: "sgl_Index delete_at_zero = Some 0"
    by (simp_all add: small_response_def unit_coding_def delete_at_zero_def)
  have o: "0 < length (Ops ?l)" "Ops ?l ! 0 = OpSingle delete_at_zero" by simp_all
  from inst d c m o obtain r' l' where
    r': "UnmarshalJSON unit_coding (marshal_Response unit_coding small_response) = Inr r'"
        "map_of (resp_Lists r') ''a'' = Some l'" "Ops l' ! 0 = OpSingle delete_at_zero"
    by blast
  from inst r'(1) obtain t where
    t: "unmarshal_temporary unit_coding (marshal_Response unit_coding small_response) = Inr t"
       "list_all2 list_parsed_from (resp_Lists r') (tmp_Lists t)" by blast
  have t_eq: "unmarshal_temporary unit_coding (marshal_Response unit_coding small_response) =
     Inr \<lparr>tmp_Rooms = (),
          tmp_Lists = [(''a'', \<lparr>tmp_Ops = [marshal_ResponseOpSingle delete_at_zero,
                                           marshal_ResponseOpRange sync_two], tmp_Count = 2\<rparr>)],
          tmp_Extensions = (), tmp_Pos = ''5'', tmp_TxnID = []\<rparr>"
    using unmarshal_temporary_marshalled [OF d c]
    by (simp add: small_response_def as_temporary_def)
  have r_eq: "UnmarshalJSON unit_coding (marshal_Response unit_coding small_response) = Inr small_response"
    using UnmarshalJSON_marshalled [OF d c]
    by (simp add: small_response_def sync_two_def)
  from r'(1) r_eq have "r' = small_response" by simp
  with t t_eq have "list_all2 list_parsed_from (resp_Lists small_response)
      [(''a'', \<lparr>tmp_Ops = [marshal_ResponseOpSingle delete_at_zero,
                           marshal_ResponseOpRange sync_two], tmp_Count = 2\<rparr>)]"
    by auto
  then have p: "parsed_from (OpSingle delete_at_zero) (marshal_ResponseOpSingle delete_at_zero)"
    "parsed_from (OpRange sync_two) (marshal_ResponseOpRange sync_two)"
    by (simp_all add: small_response_def list_parsed_from_def)
  from inst i have g: "gjson_Get (Some (marshal_ResponseOpSingle delete_at_zero)) [''index''] = Some (JNumber 0)"
    by blast
  from r_eq t_eq p d m i g show ?thesis by blast
qed


end
